theory Spec2Isabelle
  imports Main "HOL-Library.Sublist"
begin

section \<open>The log pipeline of dashboard.py\<close>

text \<open>
  The verified part of \<^verbatim>\<open>dashboard.py\<close> is the text pipeline
  \<^verbatim>\<open>parse_log_line\<close>, \<^verbatim>\<open>extract_oi_data\<close>, \<^verbatim>\<open>extract_strike_data\<close> and
  \<^verbatim>\<open>process_log_data\<close>. The Streamlit and Plotly code of \<^verbatim>\<open>main\<close> only consumes
  the table and is not modelled.

  Conventions of the embedding.
  \<^item> A Python \<^verbatim>\<open>str\<close> is a \<open>string\<close>; a character is a code point below 256. On this
    range \<^verbatim>\<open>\d\<close> is exactly \<^verbatim>\<open>0\<close>..\<^verbatim>\<open>9\<close> and \<^verbatim>\<open>\s\<close> is the twelve characters
    of \<open>whitespace\<close>.
  \<^item> Every operation that can raise returns \<open>error + 'a\<close>; the bare \<^verbatim>\<open>except\<close> of
    \<^verbatim>\<open>parse_log_line\<close> is the only handler of the program.
  \<^item> Python integers are unbounded. \<^verbatim>\<open>int\<close> of a run of decimal digits is its value
    when the run has at most 4300 digits, the default of
    \<^verbatim>\<open>sys.int_info.default_max_str_digits\<close> that the program leaves in force; for a
    longer run \<^verbatim>\<open>int\<close> raises \<^verbatim>\<open>ValueError\<close>.
  \<^item> \<^verbatim>\<open>process_log_data\<close> is modelled up to the list \<^verbatim>\<open>data\<close> of row dictionaries, in
    the order of the \<^verbatim>\<open>append\<close> calls; the conversion \<^verbatim>\<open>pd.DataFrame(data)\<close> is
    library code and is not modelled.
\<close>

subsection \<open>Strings\<close>

datatype error = ValueError | TypeError | IndexError

definition digits :: "char list" where
  "digits = ''0123456789''"

definition is_digit :: "char \<Rightarrow> bool" where
  "is_digit c = (c \<in> set digits)"

text \<open>The characters below 256 for which \<^verbatim>\<open>str.isspace\<close> holds (the class \<^verbatim>\<open>\s\<close>).\<close>

definition whitespace :: "char list" where
  "whitespace = [CHR 0x09, CHR 0x0A, CHR 0x0B, CHR 0x0C, CHR 0x0D,
                 CHR 0x1C, CHR 0x1D, CHR 0x1E, CHR 0x1F, CHR 0x20, CHR 0x85, CHR 0xA0]"

text \<open>\<^verbatim>\<open>sub in s\<close> on strings.\<close>

fun contains :: "string \<Rightarrow> string \<Rightarrow> bool" where
  "contains sub [] = (sub = [])"
| "contains sub (c # s) = (prefix sub (c # s) \<or> contains sub s)"

text \<open>
  \<^verbatim>\<open>s.split(sep)\<close> for a non-empty separator: the occurrences of \<open>sep\<close> are found from
  the left and do not overlap; the result is never the empty list. (Python raises
  \<^verbatim>\<open>ValueError\<close> for an empty separator; the program splits on \<^verbatim>\<open>": "\<close> and
  \<^verbatim>\<open>"\n"\<close> only.)
\<close>

function py_split :: "string \<Rightarrow> string \<Rightarrow> string list" where
  "py_split sep [] = [[]]"
| "py_split sep (c # s) =
     (if sep \<noteq> [] \<and> prefix sep (c # s)
      then [] # py_split sep (drop (length sep) (c # s))
      else (case py_split sep s of
              [] \<Rightarrow> [[c]]
            | p # ps \<Rightarrow> (c # p) # ps))"
  by pat_completeness auto
termination
  by (relation "measure (\<lambda>(sep, s). length s)") (auto simp: neq_Nil_conv)

text \<open>\<^verbatim>\<open>sep.join(xs)\<close>.\<close>

fun py_join :: "string \<Rightarrow> string list \<Rightarrow> string" where
  "py_join sep [] = []"
| "py_join sep [x] = x"
| "py_join sep (x # y # ys) = x @ sep @ py_join sep (y # ys)"

text \<open>
  The white space that \<^verbatim>\<open>int\<close> skips on both sides of its argument: the white space
  of \<open>whitespace\<close> without the four separators U+001C..U+001F, which \<^verbatim>\<open>int\<close> rejects.
\<close>

definition int_whitespace :: "char list" where
  "int_whitespace = [CHR 0x09, CHR 0x0A, CHR 0x0B, CHR 0x0C, CHR 0x0D, CHR 0x20, CHR 0x85,
                     CHR 0xA0]"

definition strip :: "string \<Rightarrow> string" where
  "strip s = rev (dropWhile (\<lambda>c. c \<in> set int_whitespace)
                   (rev (dropWhile (\<lambda>c. c \<in> set int_whitespace) s)))"

definition digit_val :: "char \<Rightarrow> nat" where
  "digit_val c = of_char c - 48"

definition digits_val :: "string \<Rightarrow> nat" where
  "digits_val s = foldl (\<lambda>a c. 10 * a + digit_val c) 0 s"

text \<open>
  \<^verbatim>\<open>int(s)\<close> on the strings the program passes to it: a non-empty run of decimal
  digits, possibly with white space around it. Anything else is a \<^verbatim>\<open>ValueError\<close>
  here (signs and underscores, which Python also accepts, cannot occur in the digit
  groups of the program's patterns). A run of more than \<open>max_str_digits\<close> digits,
  leading zeros counted, is a \<^verbatim>\<open>ValueError\<close> as well.
\<close>

definition max_str_digits :: nat where
  "max_str_digits = 4300"

definition py_int :: "string \<Rightarrow> error + int" where
  "py_int s =
     (let t = strip s
      in if t \<noteq> [] \<and> (\<forall>c \<in> set t. is_digit c) then
           (if max_str_digits < length t then Inl ValueError
            else Inr (int (digits_val t)))
         else Inl ValueError)"

subsection \<open>Regular expressions\<close>

text \<open>
  The fragment of \<^verbatim>\<open>re\<close> that the program's patterns use: literals, character
  classes, concatenation, alternation, greedy bounded or unbounded repetition of a
  character class (\<^verbatim>\<open>\d+\<close>, \<^verbatim>\<open>\s+\<close>, \<^verbatim>\<open>[0-9]{1,6}\<close>) and capturing groups.
\<close>

datatype regex =
    Lit string
  | Cls "char list"
  | Seq regex regex
  | Alt regex regex
  | Rep "char list" nat "nat option"
  | Grp regex

text \<open>
  \<open>matches r s\<close> lists every way \<open>r\<close> matches a prefix of \<open>s\<close>, in the order in which
  the backtracking matcher of \<^verbatim>\<open>re\<close> tries them: the left alternative first, the
  longest repetition first. Each entry is the list of captured groups (numbered by
  their opening parenthesis) and the unmatched rest of \<open>s\<close>. No pattern of the program
  has a group below an alternative or a repetition.
\<close>

fun matches :: "regex \<Rightarrow> string \<Rightarrow> (string list \<times> string) list" where
  "matches (Lit w) s = (if prefix w s then [([], drop (length w) s)] else [])"
| "matches (Cls cs) s =
     (case s of [] \<Rightarrow> [] | c # t \<Rightarrow> if c \<in> set cs then [([], t)] else [])"
| "matches (Seq a b) s =
     concat (map (\<lambda>(g1, s1). map (\<lambda>(g2, s2). (g1 @ g2, s2)) (matches b s1)) (matches a s))"
| "matches (Alt a b) s = matches a s @ matches b s"
| "matches (Rep cs lo hi) s =
     (let run = length (takeWhile (\<lambda>c. c \<in> set cs) s);
          most = (case hi of None \<Rightarrow> run | Some k \<Rightarrow> min k run)
      in map (\<lambda>k. ([], drop k s)) (rev [lo ..< Suc most]))"
| "matches (Grp r) s =
     map (\<lambda>(g, t). (take (length s - length t) s # g, t)) (matches r s)"

fun seqs :: "regex list \<Rightarrow> regex" where
  "seqs [] = Lit []"
| "seqs [r] = r"
| "seqs (r # rs) = Seq r (seqs rs)"

fun alts :: "regex list \<Rightarrow> regex" where
  "alts [] = Cls []"
| "alts [r] = r"
| "alts (r # rs) = Alt r (alts rs)"

text \<open>\<^verbatim>\<open>re.match\<close>: the first way the pattern matches at the start of the string.\<close>

definition re_match :: "regex \<Rightarrow> string \<Rightarrow> (string list \<times> string) option" where
  "re_match r s = (case matches r s of [] \<Rightarrow> None | m # _ \<Rightarrow> Some m)"

text \<open>
  \<^verbatim>\<open>re.findall\<close>: scan from the left; where the pattern matches, record the groups of
  the first match and go on behind it; elsewhere move on by one character. The branch
  for an empty match (recorded, then one character further) only makes the function
  total: every pattern of the program starts with a non-empty literal.
\<close>

function findall :: "regex \<Rightarrow> string \<Rightarrow> string list list" where
  "findall r s =
     (case re_match r s of
        Some (g, t) \<Rightarrow>
          if length t < length s then g # findall r t
          else (case s of [] \<Rightarrow> [g] | _ # s' \<Rightarrow> g # findall r s')
      | None \<Rightarrow> (case s of [] \<Rightarrow> [] | _ # s' \<Rightarrow> findall r s'))"
  by pat_completeness auto
termination
  by (relation "measure (\<lambda>(r, s). length s)") auto

declare findall.simps [simp del]

subsection \<open>datetime.strptime\<close>

record datetime =
  year :: int
  month :: int
  day :: int
  hour :: int
  minute :: int
  second :: int
  microsecond :: int

text \<open>
  \<^verbatim>\<open>datetime.strptime\<close> (module \<^verbatim>\<open>_strptime\<close> of CPython 3.11) turns the format
  \<^verbatim>\<open>"%Y-%m-%d %H:%M:%S,%f"\<close> into the pattern
  \<^verbatim>\<open>(?P<Y>\d\d\d\d)-(?P<m>1[0-2]|0[1-9]|[1-9])-(?P<d>3[0-1]|[1-2]\d|0[1-9]|[1-9]| [1-9])\s+(?P<H>2[0-3]|[0-1]\d|\d):(?P<M>[0-5]\d|\d):(?P<S>6[0-1]|[0-5]\d|\d),(?P<f>[0-9]{1,6})\<close>
  (white space in a format stands for \<^verbatim>\<open>\s+\<close>), matches it at the start of the
  string, and raises \<^verbatim>\<open>ValueError\<close> when there is no match, when the match does not
  end at the end of the string, or when the fields are not a date and time
  (\<^verbatim>\<open>datetime\<close> has years 1..9999 and seconds 0..59).
\<close>

definition nonzero :: "char list" where
  "nonzero = ''123456789''"

definition year_re :: regex where
  "year_re = Grp (seqs [Cls digits, Cls digits, Cls digits, Cls digits])"

definition month_re :: regex where
  "month_re = Grp (alts [Seq (Lit ''1'') (Cls ''012''), Seq (Lit ''0'') (Cls nonzero), Cls nonzero])"

definition day_re :: regex where
  "day_re = Grp (alts [Seq (Lit ''3'') (Cls ''01''), Seq (Cls ''12'') (Cls digits),
                       Seq (Lit ''0'') (Cls nonzero), Cls nonzero, Seq (Lit '' '') (Cls nonzero)])"

definition hour_re :: regex where
  "hour_re = Grp (alts [Seq (Lit ''2'') (Cls ''0123''), Seq (Cls ''01'') (Cls digits), Cls digits])"

definition minute_re :: regex where
  "minute_re = Grp (alts [Seq (Cls ''012345'') (Cls digits), Cls digits])"

definition second_re :: regex where
  "second_re = Grp (alts [Seq (Lit ''6'') (Cls ''01''), Seq (Cls ''012345'') (Cls digits), Cls digits])"

definition fraction_re :: regex where
  "fraction_re = Grp (Rep digits 1 (Some 6))"

definition timestamp_re :: regex where
  "timestamp_re = seqs
     [year_re, Lit ''-'', month_re, Lit ''-'', day_re, Rep whitespace 1 None,
      hour_re, Lit '':'', minute_re, Lit '':'', second_re, Lit '','', fraction_re]"

definition is_leap :: "int \<Rightarrow> bool" where
  "is_leap y = (y mod 4 = 0 \<and> (y mod 100 \<noteq> 0 \<or> y mod 400 = 0))"

definition days_in_month :: "int \<Rightarrow> int \<Rightarrow> int" where
  "days_in_month y m =
     (if m = 2 then (if is_leap y then 29 else 28)
      else if m = 4 \<or> m = 6 \<or> m = 9 \<or> m = 11 then 30 else 31)"

text \<open>The range checks of the \<^verbatim>\<open>datetime\<close> constructor.\<close>

definition valid_datetime :: "datetime \<Rightarrow> bool" where
  "valid_datetime t =
     (1 \<le> year t \<and> year t \<le> 9999 \<and> 1 \<le> month t \<and> month t \<le> 12 \<and>
      1 \<le> day t \<and> day t \<le> days_in_month (year t) (month t) \<and>
      0 \<le> hour t \<and> hour t \<le> 23 \<and> 0 \<le> minute t \<and> minute t \<le> 59 \<and>
      0 \<le> second t \<and> second t \<le> 59 \<and> 0 \<le> microsecond t \<and> microsecond t \<le> 999999)"

text \<open>The fraction \<^verbatim>\<open>%f\<close> is padded with zeros on the right to six digits.\<close>

definition pad_fraction :: "string \<Rightarrow> string" where
  "pad_fraction s = s @ replicate (6 - length s) CHR ''0''"

definition strptime :: "string \<Rightarrow> error + datetime" where
  "strptime data_string =
     (case re_match timestamp_re data_string of
        None \<Rightarrow> Inl ValueError
      | Some (found, rest) \<Rightarrow>
          if rest \<noteq> [] then Inl ValueError
          else (case found of
              [Y, m, d, H, M, S, f] \<Rightarrow>
                (case (py_int Y, py_int m, py_int d, py_int H, py_int M, py_int S,
                       py_int (pad_fraction f)) of
                   (Inr y, Inr mo, Inr dd, Inr h, Inr mi, Inr sec, Inr fraction) \<Rightarrow>
                     (let t = \<lparr>year = y, month = mo, day = dd, hour = h, minute = mi,
                               second = sec, microsecond = fraction\<rparr>
                      in if valid_datetime t then Inr t else Inl ValueError)
                 | _ \<Rightarrow> Inl ValueError)
            | _ \<Rightarrow> Inl IndexError))"

subsection \<open>The functions of the program\<close>

text \<open>
  \<^verbatim>\<open>parse_log_line\<close> returns the pair \<^verbatim>\<open>(timestamp, message)\<close>, or \<^verbatim>\<open>(None, None)\<close>
  when anything in its \<^verbatim>\<open>try\<close> block raises.
\<close>

definition parse_log_line :: "string \<Rightarrow> datetime option \<times> string option" where
  "parse_log_line line =
     (case py_split '': '' line of
        [] \<Rightarrow> (None, None)
      | timestamp_str # rest \<Rightarrow>
          (let message = py_join '': '' rest
           in case strptime timestamp_str of
                Inr timestamp \<Rightarrow> (Some timestamp, Some message)
              | Inl _ \<Rightarrow> (None, None)))"

definition oi_re :: regex where
  "oi_re = seqs [Lit ''OI:'', Grp (Rep digits 1 None)]"

text \<open>
  \<^verbatim>\<open>extract_oi_data\<close>; \<open>values\<close> is the list of the strings of group 1. The two calls
  of \<^verbatim>\<open>int\<close> are outside every \<^verbatim>\<open>try\<close>.
\<close>

definition extract_oi_data :: "string \<Rightarrow> error + (int option \<times> int option)" where
  "extract_oi_data message =
     (if contains ''ATM CE OI:'' message then
        (let values = map (\<lambda>g. g ! 0) (findall oi_re message)
         in if length values \<ge> 2 then
              (case py_int (values ! 0) of
                 Inl e \<Rightarrow> Inl e
               | Inr ce \<Rightarrow>
                   (case py_int (values ! 1) of
                      Inl e \<Rightarrow> Inl e
                    | Inr pe \<Rightarrow> Inr (Some ce, Some pe)))
            else Inr (None, None))
      else Inr (None, None))"

definition strike_re :: regex where
  "strike_re = seqs
     [Lit ''BANKNIFTY'', Rep digits 1 None, Cls ''NF'', Rep digits 1 None,
      Grp (Rep digits 1 None), Grp (alts [Lit ''CE'', Lit ''PE''])]"

text \<open>\<^verbatim>\<open>extract_strike_data\<close>; \<^verbatim>\<open>strikes[0][0]\<close> is group 1 of the first match.\<close>

definition extract_strike_data :: "string \<Rightarrow> string option" where
  "extract_strike_data message =
     (if contains ''ATM strikes:'' message then
        (case findall strike_re message of
           [] \<Rightarrow> None
         | m # _ \<Rightarrow> Some (m ! 0))
      else None)"

text \<open>
  The two shapes of row dictionary that \<^verbatim>\<open>process_log_data\<close> appends:
  \<open>OIRecord timestamp ce_oi pe_oi oi_difference\<close> and \<open>StrikeRecord timestamp strike\<close>.
\<close>

datatype row =
    OIRecord datetime int int int
  | StrikeRecord datetime string

text \<open>
  The loop of \<^verbatim>\<open>process_log_data\<close> over the lines, with the list \<open>data\<close> passed along.
  A \<^verbatim>\<open>datetime\<close> is always true in a condition; a string is true when it is not
  empty. A message \<^verbatim>\<open>None\<close> beside a timestamp would make \<^verbatim>\<open>in\<close> raise
  \<^verbatim>\<open>TypeError\<close>.
\<close>

fun process_lines :: "string list \<Rightarrow> row list \<Rightarrow> error + row list" where
  "process_lines [] data = Inr data"
| "process_lines (line # lines) data =
     (case parse_log_line line of
        (None, _) \<Rightarrow> process_lines lines data
      | (Some timestamp, None) \<Rightarrow> Inl TypeError
      | (Some timestamp, Some message) \<Rightarrow>
          (case extract_oi_data message of
             Inl e \<Rightarrow> Inl e
           | Inr (ce_oi, pe_oi) \<Rightarrow>
               (let strike = extract_strike_data message;
                    data1 = (case (ce_oi, pe_oi) of
                               (Some ce, Some pe) \<Rightarrow> data @ [OIRecord timestamp ce pe (ce - pe)]
                             | _ \<Rightarrow> data);
                    data2 = (case strike of
                               None \<Rightarrow> data1
                             | Some s \<Rightarrow> if s \<noteq> [] then data1 @ [StrikeRecord timestamp s]
                                         else data1)
                in process_lines lines data2)))"

definition process_log_data :: "string \<Rightarrow> error + row list" where
  "process_log_data log_text = process_lines (py_split [CHR 0x0A] log_text) []"

subsection \<open>Notions of the specification\<close>

text \<open>
  The occurrences of \<^verbatim>\<open>OI:\<close> immediately followed by one or more decimal digits, from
  left to right: at every position of the message where such an occurrence starts, the
  run of digits that follows.
\<close>

fun oi_occurrences :: "string \<Rightarrow> string list" where
  "oi_occurrences [] = []"
| "oi_occurrences (c # s) =
     (if prefix ''OI:'' (c # s) \<and> takeWhile is_digit (drop 3 (c # s)) \<noteq> []
      then [takeWhile is_digit (drop 3 (c # s))] else []) @ oi_occurrences s"

text \<open>
  The parts of an instrument code \<^verbatim>\<open>BANKNIFTY\<close> \<open>d1\<close> \<open>c\<close> \<open>d2\<close> \<open>g\<close> \<open>suf\<close>: digits, one
  letter \<^verbatim>\<open>N\<close> or \<^verbatim>\<open>F\<close>, digits, the digits of the group, and \<^verbatim>\<open>CE\<close> or \<^verbatim>\<open>PE\<close>.
\<close>

definition code_parts :: "string \<Rightarrow> char \<Rightarrow> string \<Rightarrow> string \<Rightarrow> string \<Rightarrow> bool" where
  "code_parts d1 c d2 g suf =
     (d1 \<noteq> [] \<and> (\<forall>x \<in> set d1. is_digit x) \<and> (c = CHR ''N'' \<or> c = CHR ''F'') \<and>
      d2 \<noteq> [] \<and> (\<forall>x \<in> set d2. is_digit x) \<and> g \<noteq> [] \<and> (\<forall>x \<in> set g. is_digit x) \<and>
      (suf = ''CE'' \<or> suf = ''PE''))"

text \<open>
  A well-formed timestamp \<^verbatim>\<open>YYYY-MM-DD HH:MM:SS,mmm\<close>: seven digit strings of the lengths
  4, 2, 2, 2, 2, 2 and 3 that name a date and time; \<open>stamp\<close> is its text and
  \<open>stamp_value\<close> the \<^verbatim>\<open>datetime\<close> it stands for, with the milliseconds as microseconds.
\<close>

definition stamp ::
  "string \<Rightarrow> string \<Rightarrow> string \<Rightarrow> string \<Rightarrow> string \<Rightarrow> string \<Rightarrow> string \<Rightarrow> string" where
  "stamp Y M D h m s f =
     Y @ ''-'' @ M @ ''-'' @ D @ '' '' @ h @ '':'' @ m @ '':'' @ s @ '','' @ f"

definition stamp_value ::
  "string \<Rightarrow> string \<Rightarrow> string \<Rightarrow> string \<Rightarrow> string \<Rightarrow> string \<Rightarrow> string \<Rightarrow> datetime" where
  "stamp_value Y M D h m s f =
     \<lparr>year = int (digits_val Y), month = int (digits_val M), day = int (digits_val D),
      hour = int (digits_val h), minute = int (digits_val m), second = int (digits_val s),
      microsecond = 1000 * int (digits_val f)\<rparr>"

definition digit_string :: "nat \<Rightarrow> string \<Rightarrow> bool" where
  "digit_string n s = (length s = n \<and> (\<forall>c \<in> set s. is_digit c))"

definition well_formed ::
  "string \<Rightarrow> string \<Rightarrow> string \<Rightarrow> string \<Rightarrow> string \<Rightarrow> string \<Rightarrow> string \<Rightarrow> bool" where
  "well_formed Y M D h m s f =
     (digit_string 4 Y \<and> digit_string 2 M \<and> digit_string 2 D \<and> digit_string 2 h \<and>
      digit_string 2 m \<and> digit_string 2 s \<and> digit_string 3 f \<and>
      valid_datetime (stamp_value Y M D h m s f))"

text \<open>
  The rows that one line contributes, in the words of the specification: nothing for a
  line that does not parse; otherwise an OIRecord when the message has the marker
  \<^verbatim>\<open>ATM CE OI:\<close> and at least two occurrences, followed by a StrikeRecord when the
  strike extractor succeeds.
\<close>

definition line_rows :: "string \<Rightarrow> row list" where
  "line_rows line =
     (case parse_log_line line of
        (Some timestamp, Some message) \<Rightarrow>
          (case oi_occurrences message of
             v0 # v1 # _ \<Rightarrow>
               if contains ''ATM CE OI:'' message
               then [OIRecord timestamp (int (digits_val v0)) (int (digits_val v1))
                       (int (digits_val v0) - int (digits_val v1))]
               else []
           | _ \<Rightarrow> []) @
          (case extract_strike_data message of
             Some strike \<Rightarrow> [StrikeRecord timestamp strike]
           | None \<Rightarrow> [])
      | _ \<Rightarrow> [])"

text \<open>
  The shape \<^verbatim>\<open>YYYY-MM-DD HH:MM:SS,mmm\<close> read strictly: the string is a well-formed
  timestamp, with its fields at their fixed positions.
\<close>

definition matches_format :: "string \<Rightarrow> bool" where
  "matches_format s =
     (let Y = take 4 s; M = take 2 (drop 5 s); D = take 2 (drop 8 s); h = take 2 (drop 11 s);
          m = take 2 (drop 14 s); sec = take 2 (drop 17 s); f = drop 20 s
      in s = stamp Y M D h m sec f \<and> well_formed Y M D h m sec f)"

text \<open>
  The timestamps that the format \<^verbatim>\<open>%Y-%m-%d %H:%M:%S,%f\<close> admits: a year of four digits
  from 0001, a month from 1 to 12 and a day from 1 to the length of the month, each of one
  or two digits (the day may also be a blank and one digit other than zero), one or more
  white-space characters, hour, minute and second of one or two digits up to 23, 59 and
  59, a comma and a fraction of one to six digits. \<open>digit_field lo hi\<close> is a field of one
  or two digits with a value from \<open>lo\<close> to \<open>hi\<close>.
\<close>

definition digit_field :: "nat \<Rightarrow> nat \<Rightarrow> string \<Rightarrow> bool" where
  "digit_field lo hi s =
     ((length s = 1 \<or> length s = 2) \<and> (\<forall>c \<in> set s. is_digit c) \<and>
      lo \<le> digits_val s \<and> digits_val s \<le> hi)"

definition blank_padded :: "string \<Rightarrow> bool" where
  "blank_padded d = (case d of [b, c] \<Rightarrow> b = CHR '' '' \<and> c \<in> set nonzero | _ \<Rightarrow> False)"

definition admitted_parts ::
  "string \<Rightarrow> string \<Rightarrow> string \<Rightarrow> string \<Rightarrow> string \<Rightarrow> string \<Rightarrow> string \<Rightarrow> string \<Rightarrow> bool" where
  "admitted_parts Y m d w H M S f =
     (digit_string 4 Y \<and> 1 \<le> digits_val Y \<and> digit_field 1 12 m \<and>
      (digit_field 1 (nat (days_in_month (int (digits_val Y)) (int (digits_val m)))) d \<or>
       blank_padded d) \<and>
      w \<noteq> [] \<and> (\<forall>c \<in> set w. c \<in> set whitespace) \<and>
      digit_field 0 23 H \<and> digit_field 0 59 M \<and> digit_field 0 59 S \<and>
      f \<noteq> [] \<and> length f \<le> 6 \<and> (\<forall>c \<in> set f. is_digit c))"

definition admitted :: "string \<Rightarrow> bool" where
  "admitted s =
     (\<exists>Y m d w H M S f.
        s = Y @ ''-'' @ m @ ''-'' @ d @ w @ H @ '':'' @ M @ '':'' @ S @ '','' @ f \<and>
        admitted_parts Y m d w H M S f)"

text \<open>A run of 4301 digits, one more than \<^verbatim>\<open>int\<close> converts.\<close>

definition long_run :: string where
  "long_run = replicate 4301 CHR ''1''"

text \<open>
  A line all of whose occurrences have a digit run that \<^verbatim>\<open>int\<close> converts.
\<close>

definition short_runs :: "string \<Rightarrow> bool" where
  "short_runs line = (\<forall>v \<in> set (oi_occurrences line). length v \<le> max_str_digits)"

subsection \<open>Auxiliary definitions for the proofs\<close>

text \<open>The first match that a scan of \<open>s\<close> from the left finds.\<close>

fun first_match :: "regex \<Rightarrow> string \<Rightarrow> (string list \<times> string) option" where
  "first_match r [] = re_match r []"
| "first_match r (c # s) =
     (case re_match r (c # s) of Some m \<Rightarrow> Some m | None \<Rightarrow> first_match r s)"

text \<open>The end of \<open>strike_re\<close>, in nested form.\<close>

definition suffix_re :: regex where
  "suffix_re = Grp (alts [Lit ''CE'', Lit ''PE''])"

definition tail_re :: regex where
  "tail_re = Seq (Grp (Rep digits 1 None)) suffix_re"

definition body_re :: regex where
  "body_re = Seq (Rep digits 1 None) tail_re"

text \<open>The two-digit fields that the patterns of \<open>timestamp_re\<close> accept.\<close>

definition month_ok :: "char \<Rightarrow> char \<Rightarrow> bool" where
  "month_ok a b = (a = CHR ''0'' \<and> b \<in> set nonzero \<or> a = CHR ''1'' \<and> b \<in> set ''012'')"

definition day_ok :: "char \<Rightarrow> char \<Rightarrow> bool" where
  "day_ok a b = (a = CHR ''0'' \<and> b \<in> set nonzero \<or> a \<in> set ''12'' \<and> b \<in> set digits
                 \<or> a = CHR ''3'' \<and> b \<in> set ''01'')"

definition hour_ok :: "char \<Rightarrow> char \<Rightarrow> bool" where
  "hour_ok a b = (a \<in> set ''01'' \<and> b \<in> set digits \<or> a = CHR ''2'' \<and> b \<in> set ''0123'')"


text \<open>A field of one or two digits, whatever its value.\<close>

definition short_field :: "string \<Rightarrow> bool" where
  "short_field s = ((length s = 1 \<or> length s = 2) \<and> (\<forall>c \<in> set s. is_digit c))"


section \<open>Lemmas\<close>

lemma matches_Seq_Rep:
  "matches (Seq (Rep cs lo None) r) s =
     concat (map (\<lambda>k. matches r (drop k s)) (rev [lo ..< Suc (length (takeWhile (\<lambda>c. c \<in> set cs) s))]))"
  by (simp add: Let_def comp_def rev_map[symmetric] map_concat del: upt_Suc)

lemma drop_run_hd:
  "k < length (takeWhile P s) \<Longrightarrow> \<exists>c t. drop k s = c # t \<and> P c"
proof -
  assume k: "k < length (takeWhile P s)"
  have "drop k s = drop k (takeWhile P s) @ dropWhile P s"
    using k by (metis drop_append takeWhile_dropWhile_id less_imp_le diff_is_0_eq drop_0)
  moreover have "drop k (takeWhile P s) \<noteq> []" using k by simp
  then obtain c t where ct: "drop k (takeWhile P s) = c # t" by (cases "drop k (takeWhile P s)") auto
  moreover have "c \<in> set (takeWhile P s)" using ct by (metis in_set_dropD list.set_intros(1))
  then have "P c" by (rule set_takeWhileD[THEN conjunct2])
  ultimately show ?thesis by auto
qed

lemma drop_run: "drop (length (takeWhile P s)) s = dropWhile P s"
  by (metis append_eq_conv_conj takeWhile_dropWhile_id)

lemma is_digit_eq: "(\<lambda>c. c \<in> set digits) = is_digit"
  by (simp add: is_digit_def fun_eq_iff)

lemma matches_Grp_Rep:
  "matches (Grp (Rep cs lo None)) t =
     map (\<lambda>k. ([take k t], drop k t)) (rev [lo ..< Suc (length (takeWhile (\<lambda>c. c \<in> set cs) t))])"
proof -
  let ?n = "length (takeWhile (\<lambda>c. c \<in> set cs) t)"
  have "matches (Grp (Rep cs lo None)) t =
        map (\<lambda>k. ([take (length t - (length t - k)) t], drop k t)) (rev [lo ..< Suc ?n])"
    by (simp add: Let_def comp_def del: upt_Suc)
  also have "\<dots> = map (\<lambda>k. ([take k t], drop k t)) (rev [lo ..< Suc ?n])"
  proof (rule map_cong[OF refl])
    fix k assume "k \<in> set (rev [lo ..< Suc ?n])"
    then have "k \<le> ?n" by auto
    moreover have "?n \<le> length t" by (rule length_takeWhile_le)
    ultimately have "length t - (length t - k) = k" by simp
    then show "([take (length t - (length t - k)) t], drop k t) = ([take k t], drop k t)" by simp
  qed
  finally show ?thesis .
qed

lemma re_match_Grp_Rep:
  "re_match (Grp (Rep cs lo None)) t =
     (if lo \<le> length (takeWhile (\<lambda>c. c \<in> set cs) t)
      then Some ([takeWhile (\<lambda>c. c \<in> set cs) t], dropWhile (\<lambda>c. c \<in> set cs) t) else None)"
proof (cases "lo \<le> length (takeWhile (\<lambda>c. c \<in> set cs) t)")
  case True
  let ?n = "length (takeWhile (\<lambda>c. c \<in> set cs) t)"
  have "rev [lo ..< Suc ?n] = ?n # rev [lo ..< ?n]" using True by simp
  then have "matches (Grp (Rep cs lo None)) t =
      ([take ?n t], drop ?n t) # map (\<lambda>k. ([take k t], drop k t)) (rev [lo ..< ?n])"
    unfolding matches_Grp_Rep by simp
  moreover have "take ?n t = takeWhile (\<lambda>c. c \<in> set cs) t"
    by (rule takeWhile_eq_take[symmetric])
  moreover have "drop ?n t = dropWhile (\<lambda>c. c \<in> set cs) t"
    by (rule drop_run)
  ultimately show ?thesis using True by (simp add: re_match_def)
next
  case False
  then have "[lo ..< Suc (length (takeWhile (\<lambda>c. c \<in> set cs) t))] = []" by simp
  then show ?thesis
    using False unfolding re_match_def matches_Grp_Rep by simp
qed

lemma re_match_Seq_Lit:
  "re_match (Seq (Lit w) r) s = (if prefix w s then re_match r (drop (length w) s) else None)"
  by (simp add: re_match_def)

lemma re_match_oi:
  "re_match oi_re s =
     (if prefix ''OI:'' s \<and> takeWhile is_digit (drop 3 s) \<noteq> []
      then Some ([takeWhile is_digit (drop 3 s)], dropWhile is_digit (drop 3 s)) else None)"
proof -
  have a: "(1 \<le> length (takeWhile is_digit t)) = (takeWhile is_digit t \<noteq> [])" for t
    by (cases "takeWhile is_digit t") auto
  have b: "length ''OI:'' = 3" by simp
  show ?thesis
    unfolding oi_re_def seqs.simps re_match_Seq_Lit re_match_Grp_Rep is_digit_eq a b
    by simp
qed

lemma oi_occurrences_skip:
  "CHR ''O'' \<notin> set a \<Longrightarrow> oi_occurrences (a @ b) = oi_occurrences b"
  by (induction a) auto

lemma is_digit_not_O: "is_digit c \<Longrightarrow> c \<noteq> CHR ''O''"
  by (auto simp: is_digit_def digits_def)

lemma findall_match:
  "re_match r s = Some (g, t) \<Longrightarrow> length t < length s \<Longrightarrow> findall r s = g # findall r t"
  by (subst findall.simps) simp

lemma findall_nomatch_Cons:
  "re_match r (c # s) = None \<Longrightarrow> findall r (c # s) = findall r s"
  by (subst findall.simps) simp

lemma findall_nomatch_Nil:
  "re_match r [] = None \<Longrightarrow> findall r [] = []"
  by (subst findall.simps) simp

lemma findall_oi: "findall oi_re s = map (\<lambda>v. [v]) (oi_occurrences s)"
proof (induction s rule: length_induct)
  case (1 s)
  show ?case
  proof (cases "prefix ''OI:'' s \<and> takeWhile is_digit (drop 3 s) \<noteq> []")
    case True
    then obtain u where s: "s = ''OI:'' @ u" by (auto simp: prefix_def)
    let ?d = "takeWhile is_digit u" and ?t = "dropWhile is_digit u"
    from True s have d: "?d \<noteq> []" by simp
    have m: "re_match oi_re s = Some ([?d], ?t)" using True s by (simp add: re_match_oi)
    have "length ?t \<le> length u" by (rule length_dropWhile_le)
    then have lt: "length ?t < length s" using s by simp
    have fa: "findall oi_re s = [?d] # findall oi_re ?t"
      using m lt by (rule findall_match)
    have "CHR ''O'' \<notin> set (''I:'' @ ?d)"
      by (auto dest!: set_takeWhileD is_digit_not_O)
    then have "oi_occurrences ((''I:'' @ ?d) @ ?t) = oi_occurrences ?t"
      by (rule oi_occurrences_skip)
    then have "oi_occurrences s = ?d # oi_occurrences ?t"
      using d s by simp
    moreover have "findall oi_re ?t = map (\<lambda>v. [v]) (oi_occurrences ?t)"
      using 1 lt by blast
    ultimately show ?thesis using fa by simp
  next
    case False
    then have m: "re_match oi_re s = None" by (simp add: re_match_oi)
    show ?thesis
    proof (cases s)
      case Nil
      then show ?thesis using m by (simp add: findall_nomatch_Nil)
    next
      case (Cons c t)
      then have "findall oi_re s = findall oi_re t" using m by (simp add: findall_nomatch_Cons)
      moreover have "oi_occurrences s = oi_occurrences t" using False Cons by simp
      moreover have "findall oi_re t = map (\<lambda>v. [v]) (oi_occurrences t)"
        using 1 Cons by simp
      ultimately show ?thesis by simp
    qed
  qed
qed

lemma matches_suffix_re:
  "matches suffix_re t =
     (if prefix ''CE'' t then [([''CE''], drop 2 t)]
      else if prefix ''PE'' t then [([''PE''], drop 2 t)] else [])"
  by (auto simp: suffix_re_def prefix_def)

lemma matches_suffix_digit: "is_digit c \<Longrightarrow> matches suffix_re (c # t) = []"
  by (auto simp: matches_suffix_re is_digit_def digits_def)

lemma concat_top:
  assumes "\<And>k. lo \<le> k \<Longrightarrow> k < n \<Longrightarrow> f k = []"
  shows "concat (map f (rev [lo ..< Suc n])) = (if lo \<le> n then f n else [])"
proof (cases "lo \<le> n")
  case True
  have "concat (map f (rev [lo ..< n])) = []"
    using assms by (auto simp: concat_eq_Nil_conv)
  then show ?thesis using True by simp
next
  case False
  then show ?thesis by simp
qed

lemma takeWhile_drop_run:
  "k \<le> length (takeWhile P s) \<Longrightarrow> takeWhile P (drop k s) = drop k (takeWhile P s)"
proof -
  assume k: "k \<le> length (takeWhile P s)"
  have "drop k s = drop k (takeWhile P s) @ dropWhile P s"
    using k by (metis drop_append takeWhile_dropWhile_id diff_is_0_eq drop_0)
  moreover have "\<forall>x \<in> set (drop k (takeWhile P s)). P x"
    by (meson in_set_dropD set_takeWhileD)
  moreover have "dropWhile P s = [] \<or> \<not> P (hd (dropWhile P s))"
    by (metis hd_dropWhile)
  ultimately show ?thesis
    by (cases "dropWhile P s") (auto simp: takeWhile_append)
qed

lemma dropWhile_drop_run:
  "k \<le> length (takeWhile P s) \<Longrightarrow> dropWhile P (drop k s) = dropWhile P s"
proof -
  assume k: "k \<le> length (takeWhile P s)"
  have "takeWhile P (drop k s) @ dropWhile P (drop k s) = drop k s" by simp
  moreover have "drop k s = drop k (takeWhile P s) @ dropWhile P s"
    using k by (metis drop_append takeWhile_dropWhile_id diff_is_0_eq drop_0)
  ultimately show ?thesis using takeWhile_drop_run[OF k, of ] by (metis same_append_eq)
qed

lemma nonempty_run: "(1 \<le> length (takeWhile P t)) = (takeWhile P t \<noteq> [])"
  by (cases "takeWhile P t") auto

lemma matches_Seq_Grp_Rep:
  "matches (Seq (Grp (Rep cs lo None)) r) u =
     concat (map (\<lambda>k. map (\<lambda>(g2, s2). (take k u # g2, s2)) (matches r (drop k u)))
               (rev [lo ..< Suc (length (takeWhile (\<lambda>c. c \<in> set cs) u))]))"
  unfolding matches.simps(3) matches_Grp_Rep
  by (simp add: comp_def del: upt_Suc matches.simps)

lemma matches_tail_re:
  "matches tail_re u =
     (if takeWhile is_digit u \<noteq> []
      then map (\<lambda>(g2, s2). (takeWhile is_digit u # g2, s2)) (matches suffix_re (dropWhile is_digit u))
      else [])"
proof -
  let ?n = "length (takeWhile is_digit u)"
  let ?f = "\<lambda>k. map (\<lambda>(g2, s2). (take k u # g2, s2)) (matches suffix_re (drop k u))"
  have "?f k = []" if kn: "k < ?n" for k
  proof -
    obtain c t where "drop k u = c # t" "is_digit c" using drop_run_hd[OF kn] by blast
    then show ?thesis by (simp add: matches_suffix_digit)
  qed
  then have "concat (map ?f (rev [1 ..< Suc ?n])) = (if 1 \<le> ?n then ?f ?n else [])"
    by (intro concat_top) auto
  moreover have "take ?n u = takeWhile is_digit u" by (rule takeWhile_eq_take[symmetric])
  moreover have "drop ?n u = dropWhile is_digit u" by (rule drop_run)
  ultimately show ?thesis
    unfolding tail_re_def matches_Seq_Grp_Rep is_digit_eq nonempty_run by simp
qed

lemma matches_tail_drop:
  assumes "k \<le> length (takeWhile is_digit v)"
  shows "matches tail_re (drop k v) =
     (if k < length (takeWhile is_digit v)
      then map (\<lambda>(g2, s2). (drop k (takeWhile is_digit v) # g2, s2))
             (matches suffix_re (dropWhile is_digit v))
      else [])"
  using assms
  by (simp add: matches_tail_re takeWhile_drop_run dropWhile_drop_run)

lemma drop_last: "xs \<noteq> [] \<Longrightarrow> drop (length xs - 1) xs = [last xs]"
  by (metis append_butlast_last_id append_eq_conv_conj length_butlast)

lemma re_match_body:
  "re_match body_re v =
     (if 2 \<le> length (takeWhile is_digit v)
      then (case matches suffix_re (dropWhile is_digit v) of
              [] \<Rightarrow> None
            | (g2, s2) # _ \<Rightarrow> Some ([last (takeWhile is_digit v)] # g2, s2))
      else None)"
proof -
  let ?tw = "takeWhile is_digit v"
  let ?n = "length ?tw"
  let ?M = "matches suffix_re (dropWhile is_digit v)"
  let ?F = "\<lambda>k. matches tail_re (drop k v)"
  have body: "matches body_re v = concat (map ?F (rev [1 ..< Suc ?n]))"
    unfolding body_re_def matches_Seq_Rep is_digit_eq ..
  show ?thesis
  proof (cases "2 \<le> ?n")
    case False
    then have "?n = 0 \<or> ?n = 1" by linarith
    then have "matches body_re v = []"
    proof
      assume "?n = 0" then show ?thesis unfolding body by simp
    next
      assume n1: "?n = 1"
      then have "?F 1 = []" using matches_tail_drop[of 1 v] by simp
      then show ?thesis unfolding body using n1 by simp
    qed
    then show ?thesis using False by (simp add: re_match_def)
  next
    case True
    show ?thesis
    proof (cases ?M)
      case Nil
      have "?F k = []" if "k \<in> set (rev [1 ..< Suc ?n])" for k
        using that matches_tail_drop[of k v] Nil by auto
      then have "matches body_re v = []"
        unfolding body by (simp add: concat_eq_Nil_conv del: upt_Suc)
      then show ?thesis using True Nil by (simp add: re_match_def)
    next
      case (Cons m ms)
      obtain g2 s2 where m: "m = (g2, s2)" by (cases m)
      have r: "rev [1 ..< Suc ?n] = ?n # (?n - 1) # rev [1 ..< ?n - 1]"
      proof -
        have "[1 ..< Suc ?n] = [1 ..< ?n - 1] @ [?n - 1, ?n]"
          using True by (metis (no_types, lifting) Suc_1 Suc_diff_1 Suc_le_lessD
              append.assoc append_Cons append_Nil le_SucI less_imp_le_nat
              not_less_eq_eq upt_Suc_append zero_less_Suc order.strict_trans2)
        then show ?thesis by simp
      qed
      have a: "?F ?n = []" using matches_tail_drop[of ?n v] by simp
      have tw: "?tw \<noteq> []" using True by auto
      have b: "?F (?n - 1) = map (\<lambda>(g2, s2). ([last ?tw] # g2, s2)) ?M"
        using matches_tail_drop[of "?n - 1" v] True drop_last[OF tw] by simp
      have "matches body_re v = ([last ?tw] # g2, s2) # map (\<lambda>(g2, s2). ([last ?tw] # g2, s2)) ms
              @ concat (map ?F (rev [1 ..< ?n - 1]))"
        unfolding body r using a b Cons m by simp
      then show ?thesis using True Cons m by (simp add: re_match_def)
    qed
  qed
qed

lemma strike_re_eq:
  "strike_re = Seq (Lit ''BANKNIFTY'') (Seq (Rep digits 1 None) (Seq (Cls ''NF'') body_re))"
  by (simp add: strike_re_def body_re_def tail_re_def suffix_re_def)

lemma re_match_Seq_Cls:
  "re_match (Seq (Cls cs) r) s =
     (case s of [] \<Rightarrow> None | c # t \<Rightarrow> if c \<in> set cs then re_match r t else None)"
  by (simp add: re_match_def split: list.splits)

lemma is_digit_not_NF: "is_digit c \<Longrightarrow> c \<notin> set ''NF''"
  by (auto simp: is_digit_def digits_def)

lemma re_match_Seq_Rep_Cls:
  assumes "\<And>c. is_digit c \<Longrightarrow> c \<notin> set cs"
  shows "re_match (Seq (Rep digits 1 None) (Seq (Cls cs) r)) w =
     (if takeWhile is_digit w \<noteq> [] then re_match (Seq (Cls cs) r) (dropWhile is_digit w) else None)"
proof -
  let ?n = "length (takeWhile is_digit w)"
  let ?f = "\<lambda>k. matches (Seq (Cls cs) r) (drop k w)"
  have "?f k = []" if kn: "k < ?n" for k
  proof -
    obtain c t where "drop k w = c # t" "is_digit c" using drop_run_hd[OF kn] by blast
    then show ?thesis using assms by simp
  qed
  then have "concat (map ?f (rev [1 ..< Suc ?n])) = (if 1 \<le> ?n then ?f ?n else [])"
    by (intro concat_top) auto
  then have "matches (Seq (Rep digits 1 None) (Seq (Cls cs) r)) w =
      (if takeWhile is_digit w \<noteq> [] then matches (Seq (Cls cs) r) (dropWhile is_digit w) else [])"
    unfolding matches_Seq_Rep is_digit_eq nonempty_run drop_run by simp
  then show ?thesis unfolding re_match_def by simp
qed

lemma re_match_strike:
  "re_match strike_re s =
     (if prefix ''BANKNIFTY'' s \<and> takeWhile is_digit (drop 9 s) \<noteq> []
      then (case dropWhile is_digit (drop 9 s) of
              [] \<Rightarrow> None
            | c # v \<Rightarrow> if c \<in> set ''NF'' then re_match body_re v else None)
      else None)"
proof -
  have l: "length ''BANKNIFTY'' = 9" by simp
  have "re_match (Seq (Rep digits 1 None) (Seq (Cls ''NF'') body_re)) w =
     (if takeWhile is_digit w \<noteq> []
      then re_match (Seq (Cls ''NF'') body_re) (dropWhile is_digit w) else None)" for w
    by (rule re_match_Seq_Rep_Cls) (rule is_digit_not_NF)
  then show ?thesis
    unfolding strike_re_eq re_match_Seq_Lit l
    by (simp add: re_match_Seq_Cls del: One_nat_def)
qed

lemma digit_cases: "c \<in> set digits \<Longrightarrow> c = CHR ''0'' \<or> c = CHR ''1'' \<or> c = CHR ''2'' \<or> c = CHR ''3'' \<or> c = CHR ''4''
   \<or> c = CHR ''5'' \<or> c = CHR ''6'' \<or> c = CHR ''7'' \<or> c = CHR ''8'' \<or> c = CHR ''9''"
  by (auto simp: digits_def)

lemma minute_field:
  assumes "c1 \<in> set ''012345''" "c2 \<in> set digits"
  shows "matches (Seq minute_re (Seq (Lit '':'') r)) (c1 # c2 # CHR '':'' # rest) =
           map (\<lambda>(g, t). ([c1, c2] # g, t)) (matches r rest)"
proof -
  have "c2 \<noteq> CHR '':''" using assms(2) by (auto simp: digits_def)
  moreover have "c1 \<in> set digits" using assms(1) by (auto simp: digits_def)
  ultimately show ?thesis using assms
    by (simp add: minute_re_def comp_def split_def)
qed

lemma digit_val_simps:
  "digit_val CHR ''0'' = 0" "digit_val CHR ''1'' = 1" "digit_val CHR ''2'' = 2"
  "digit_val CHR ''3'' = 3" "digit_val CHR ''4'' = 4" "digit_val CHR ''5'' = 5"
  "digit_val CHR ''6'' = 6" "digit_val CHR ''7'' = 7" "digit_val CHR ''8'' = 8"
  "digit_val CHR ''9'' = 9"
  by (simp_all add: digit_val_def)

lemma digits_val_2: "digits_val [a, b] = 10 * digit_val a + digit_val b"
  by (simp add: digits_val_def)

lemma digit_val_le: "c \<in> set digits \<Longrightarrow> digit_val c \<le> 9"
  by (drule digit_cases) (elim disjE; simp add: digit_val_simps)

lemma month_ok_I:
  assumes "a \<in> set digits" "b \<in> set digits" "1 \<le> digits_val [a, b]" "digits_val [a, b] \<le> 12"
  shows "month_ok a b"
  using digit_cases[OF assms(1)] digit_cases[OF assms(2)] assms(3,4)
  by (elim disjE; simp add: month_ok_def digits_val_2 digit_val_simps nonzero_def)

lemma day_ok_I:
  assumes "a \<in> set digits" "b \<in> set digits" "1 \<le> digits_val [a, b]" "digits_val [a, b] \<le> 31"
  shows "day_ok a b"
  using digit_cases[OF assms(1)] digit_cases[OF assms(2)] assms(3,4)
  by (elim disjE; simp add: day_ok_def digits_val_2 digit_val_simps nonzero_def digits_def)

lemma hour_ok_I:
  assumes "a \<in> set digits" "b \<in> set digits" "digits_val [a, b] \<le> 23"
  shows "hour_ok a b"
  using digit_cases[OF assms(1)] digit_cases[OF assms(2)] assms(3)
  by (elim disjE; simp add: hour_ok_def digits_val_2 digit_val_simps digits_def)

lemma sixty_ok_I:
  assumes "a \<in> set digits" "b \<in> set digits" "digits_val [a, b] \<le> 59"
  shows "a \<in> set ''012345''"
  using digit_cases[OF assms(1)] digit_val_le[OF assms(2)] assms(3)
  by (elim disjE; simp add: digits_val_2 digit_val_simps)

lemma digit_not_sep:
  assumes "c \<in> set digits"
  shows "c \<noteq> CHR ''-''" "c \<noteq> CHR '':''" "c \<noteq> CHR '',''" "c \<noteq> CHR '' ''" "c \<notin> set whitespace"
  using digit_cases[OF assms] by (auto simp: whitespace_def)

lemma year_field:
  assumes "c1 \<in> set digits" "c2 \<in> set digits" "c3 \<in> set digits" "c4 \<in> set digits"
  shows "matches (Seq year_re (Seq (Lit ''-'') r)) (c1 # c2 # c3 # c4 # CHR ''-'' # rest) =
           map (\<lambda>(g, t). ([c1, c2, c3, c4] # g, t)) (matches r rest)"
  using assms by (simp add: year_re_def comp_def split_def)

lemma month_field:
  assumes "month_ok c1 c2"
  shows "matches (Seq month_re (Seq (Lit ''-'') r)) (c1 # c2 # CHR ''-'' # rest) =
           map (\<lambda>(g, t). ([c1, c2] # g, t)) (matches r rest)"
proof -
  have d: "c2 \<in> set digits" using assms by (auto simp: month_ok_def nonzero_def digits_def)
  have "c2 \<noteq> CHR ''-''" using digit_not_sep[OF d] by simp
  then show ?thesis using assms
    unfolding month_ok_def
    by (elim disjE conjE; simp add: month_re_def comp_def split_def nonzero_def)
qed

lemma hour_field:
  assumes "hour_ok c1 c2"
  shows "matches (Seq hour_re (Seq (Lit '':'') r)) (c1 # c2 # CHR '':'' # rest) =
           map (\<lambda>(g, t). ([c1, c2] # g, t)) (matches r rest)"
proof -
  have d: "c2 \<in> set digits" "c1 \<in> set digits" using assms by (auto simp: hour_ok_def digits_def)
  have n: "c2 \<noteq> CHR '':''" using digit_not_sep[OF d(1)] by simp
  consider (a) "c1 \<in> set ''01''" | (b) "c1 = CHR ''2''" "c2 \<in> set ''0123''"
    using assms unfolding hour_ok_def by blast
  then show ?thesis
  proof cases
    case a
    then have "c1 \<noteq> CHR ''2''" by auto
    then show ?thesis using a d n by (simp add: hour_re_def comp_def split_def)
  next
    case b
    then have "c1 \<notin> set ''01''" by auto
    then show ?thesis using b d n by (simp add: hour_re_def comp_def split_def)
  qed
qed

lemma second_field:
  assumes "c1 \<in> set ''012345''" "c2 \<in> set digits"
  shows "matches (Seq second_re (Seq (Lit '','') r)) (c1 # c2 # CHR '','' # rest) =
           map (\<lambda>(g, t). ([c1, c2] # g, t)) (matches r rest)"
proof -
  have "c2 \<noteq> CHR '',''" using digit_not_sep[OF assms(2)] by simp
  moreover have "c1 \<in> set digits" "c1 \<noteq> CHR ''6''" using assms(1) by (auto simp: digits_def)
  ultimately show ?thesis using assms
    by (simp add: second_re_def comp_def split_def)
qed

lemma fraction_field:
  assumes "f \<noteq> []" "length f \<le> 6" "\<forall>c \<in> set f. c \<in> set digits"
  shows "\<exists>ms. matches fraction_re f = ([f], []) # ms"
proof -
  let ?n = "length f"
  have tw: "takeWhile (\<lambda>c. c \<in> set digits) f = f"
    using assms(3) by (simp add: takeWhile_eq_all_conv)
  have n: "1 \<le> ?n" using assms(1) by (cases f) auto
  have m: "min 6 ?n = ?n" using assms(2) by simp
  have r: "rev [1 ..< Suc ?n] = ?n # rev [1 ..< ?n]" using n by simp
  have "matches fraction_re f =
          map (\<lambda>(g, t). (take (length f - length t) f # g, t))
            (map (\<lambda>k. ([], drop k f)) (rev [1 ..< Suc ?n]))"
    unfolding fraction_re_def by (simp add: tw m Let_def del: upt_Suc)
  then show ?thesis unfolding r by simp
qed

lemma timestamp_re_eq:
  "timestamp_re =
     Seq year_re (Seq (Lit ''-'') (Seq month_re (Seq (Lit ''-'') (Seq day_re
       (Seq (Rep whitespace 1 None) (Seq hour_re (Seq (Lit '':'') (Seq minute_re (Seq (Lit '':'')
          (Seq second_re (Seq (Lit '','') fraction_re)))))))))))"
  by (simp add: timestamp_re_def)

lemma py_split_nonempty: "py_split sep s \<noteq> []"
  by (induction sep s rule: py_split.induct) (auto split: list.splits)

lemma py_join_Cons: "py_join sep ((c # p) # ps) = c # py_join sep (p # ps)"
  by (cases ps) auto

lemma py_join_Nil_Cons: "X \<noteq> [] \<Longrightarrow> py_join sep ([] # X) = sep @ py_join sep X"
  by (cases X) auto

lemma join_split: "py_join sep (py_split sep s) = s"
proof (induction sep s rule: py_split.induct)
  case (1 sep)
  then show ?case by simp
next
  case (2 sep c s)
  show ?case
  proof (cases "sep \<noteq> [] \<and> prefix sep (c # s)")
    case True
    then have "c # s = sep @ drop (length sep) (c # s)"
      by (metis append_eq_conv_conj prefix_def)
    then show ?thesis
      using True 2(1) by (simp add: py_join_Nil_Cons py_split_nonempty del: drop.simps)
  next
    case False
    obtain p ps where ps: "py_split sep s = p # ps"
      using py_split_nonempty[of sep s] by (cases "py_split sep s") auto
    have "py_join sep (p # ps) = s" using 2(2)[OF False] ps by simp
    moreover have "py_split sep (c # s) = (c # p) # ps" using False ps by auto
    ultimately show ?thesis by (simp add: py_join_Cons)
  qed
qed

lemma strip_digits:
  assumes "s \<noteq> []" "\<forall>c \<in> set s. is_digit c"
  shows "strip s = s"
proof -
  have nw: "is_digit c \<Longrightarrow> c \<notin> set int_whitespace" for c
    using digit_not_sep(5)[of c] by (auto simp: is_digit_def whitespace_def int_whitespace_def)
  have "hd s \<in> set s" "last s \<in> set s" using assms(1) by simp_all
  then have a: "hd s \<notin> set int_whitespace" "last s \<notin> set int_whitespace"
    using assms(2) nw by blast+
  have "dropWhile (\<lambda>c. c \<in> set int_whitespace) s = s"
    using a(1) assms(1) by (cases s) auto
  moreover have "dropWhile (\<lambda>c. c \<in> set int_whitespace) (rev s) = rev s"
    using a(2) assms(1) by (cases "rev s") (auto simp: last_rev[symmetric] simp del: last_rev)
  ultimately show ?thesis by (simp add: strip_def)
qed

lemma py_int_digits:
  assumes "s \<noteq> []" "\<forall>c \<in> set s. is_digit c" "length s \<le> max_str_digits"
  shows "py_int s = Inr (int (digits_val s))"
  using assms by (simp add: py_int_def strip_digits)

lemma py_int_long:
  assumes "\<forall>c \<in> set s. is_digit c" "max_str_digits < length s"
  shows "py_int s = Inl ValueError"
proof -
  have "s \<noteq> []" using assms(2) by auto
  then show ?thesis using assms by (simp add: py_int_def strip_digits)
qed

lemma digit_string_2: "digit_string 2 s \<Longrightarrow> \<exists>a b. s = [a, b] \<and> a \<in> set digits \<and> b \<in> set digits"
  by (cases s; cases "tl s"; cases "tl (tl s)") (auto simp: digit_string_def is_digit_def)

lemma digit_string_3:
  "digit_string 3 s \<Longrightarrow> \<exists>a b c. s = [a, b, c] \<and> a \<in> set digits \<and> b \<in> set digits \<and> c \<in> set digits"
  by (cases s; cases "tl s"; cases "tl (tl s)"; cases "tl (tl (tl s))")
     (auto simp: digit_string_def is_digit_def)

lemma digit_string_4:
  "digit_string 4 s \<Longrightarrow> \<exists>a b c d. s = [a, b, c, d] \<and> a \<in> set digits \<and> b \<in> set digits \<and>
      c \<in> set digits \<and> d \<in> set digits"
  by (cases s; cases "tl s"; cases "tl (tl s)"; cases "tl (tl (tl s))"; cases "tl (tl (tl (tl s)))")
     (auto simp: digit_string_def is_digit_def)

lemma digits_val_snoc: "digits_val (s @ [c]) = 10 * digits_val s + digit_val c"
  by (simp add: digits_val_def)

lemma digits_val_pad: "digits_val (pad_fraction [a, b, c]) = 1000 * digits_val [a, b, c]"
proof -
  have "pad_fraction [a, b, c] = (([a, b, c] @ [CHR ''0'']) @ [CHR ''0'']) @ [CHR ''0'']"
    by (simp add: pad_fraction_def numeral_eq_Suc)
  then show ?thesis by (simp only: digits_val_snoc digit_val_simps) simp
qed

lemma days_in_month_le: "days_in_month y m \<le> 31"
  by (simp add: days_in_month_def)

lemma pad_fraction_digits:
  assumes "f \<noteq> []" "length f \<le> 6" "\<forall>c \<in> set f. is_digit c"
  shows "py_int (pad_fraction f) = Inr (int (digits_val (pad_fraction f)))"
proof -
  have "length (pad_fraction f) = 6" using assms(2) by (simp add: pad_fraction_def)
  then have l: "length (pad_fraction f) \<le> max_str_digits" by (simp add: max_str_digits_def)
  have n: "pad_fraction f \<noteq> []" using assms(1) by (simp add: pad_fraction_def)
  have z: "is_digit CHR ''0''" by (simp add: is_digit_def digits_def)
  have d: "\<forall>c \<in> set (pad_fraction f). is_digit c"
    using assms(3) z by (auto simp: pad_fraction_def)
  show ?thesis by (rule py_int_digits[OF n d l])
qed

lemma py_int_field:
  assumes "digit_string n s" "0 < n" "n \<le> 4"
  shows "py_int s = Inr (int (digits_val s))"
proof -
  have "s \<noteq> []" "\<forall>c \<in> set s. is_digit c" "length s \<le> max_str_digits"
    using assms by (auto simp: digit_string_def max_str_digits_def)
  then show ?thesis by (rule py_int_digits)
qed

subsection \<open>The timestamps that strptime accepts\<close>

lemma in_matches_Seq:
  "(g, t) \<in> set (matches (Seq a b) s) \<longleftrightarrow>
     (\<exists>g1 s1 g2. (g1, s1) \<in> set (matches a s) \<and> (g2, t) \<in> set (matches b s1) \<and> g = g1 @ g2)"
  by force

lemma in_matches_Lit: "(g, t) \<in> set (matches (Lit w) s) \<longleftrightarrow> g = [] \<and> s = w @ t"
  by (auto simp: prefix_def)

lemma in_matches_Cls:
  "(g, t) \<in> set (matches (Cls cs) s) \<longleftrightarrow> (\<exists>c. s = c # t \<and> c \<in> set cs \<and> g = [])"
  by (cases s) auto

lemma in_matches_Alt:
  "(g, t) \<in> set (matches (Alt a b) s) \<longleftrightarrow>
     (g, t) \<in> set (matches a s) \<or> (g, t) \<in> set (matches b s)"
  by simp

lemma in_matches_Rep:
  assumes "(g, t) \<in> set (matches (Rep cs lo hi) s)"
  shows "\<exists>p. s = p @ t \<and> lo \<le> length p \<and> (\<forall>k. hi = Some k \<longrightarrow> length p \<le> k) \<and>
              (\<forall>c \<in> set p. c \<in> set cs) \<and> g = []"
proof -
  let ?run = "length (takeWhile (\<lambda>c. c \<in> set cs) s)"
  let ?most = "case hi of None \<Rightarrow> ?run | Some k \<Rightarrow> min k ?run"
  from assms obtain k where k: "lo \<le> k" "k \<le> ?most" and t: "t = drop k s" and g: "g = []"
    by (auto simp: Let_def simp del: upt_Suc)
  have kr: "k \<le> ?run" using k(2) by (cases hi) auto
  have kl: "k \<le> length s" using kr length_takeWhile_le[of "\<lambda>c. c \<in> set cs" s] by linarith
  have "take k s = take k (takeWhile (\<lambda>c. c \<in> set cs) s)"
    using kr by (metis append_eq_conv_conj takeWhile_dropWhile_id take_append diff_is_0_eq take_0 append_Nil2 length_take min.absorb2 take_all_iff take_take)
  then have "\<forall>c \<in> set (take k s). c \<in> set cs"
    by (metis in_set_takeD set_takeWhileD)
  moreover have "s = take k s @ t" using t by simp
  moreover have "length (take k s) = k" using kl by simp
  moreover have "\<forall>j. hi = Some j \<longrightarrow> k \<le> j" using k(2) by (cases hi) auto
  ultimately show ?thesis using k(1) g by metis
qed

lemma in_matches_Grp:
  "(g, t) \<in> set (matches (Grp r) s) \<longleftrightarrow>
     (\<exists>g'. (g', t) \<in> set (matches r s) \<and> g = take (length s - length t) s # g')"
  by auto

lemma digit_members:
  "c \<in> set ''01'' \<Longrightarrow> is_digit c" "c \<in> set ''012'' \<Longrightarrow> is_digit c"
  "c \<in> set ''12'' \<Longrightarrow> is_digit c" "c \<in> set ''0123'' \<Longrightarrow> is_digit c"
  "c \<in> set ''012345'' \<Longrightarrow> is_digit c" "c \<in> set nonzero \<Longrightarrow> is_digit c"
  "c \<in> set digits \<Longrightarrow> is_digit c"
  "is_digit CHR ''0''" "is_digit CHR ''1''" "is_digit CHR ''2''" "is_digit CHR ''3''"
  "is_digit CHR ''6''"
  by (auto simp: is_digit_def digits_def nonzero_def)

lemma group_shape:
  assumes "(g, t) \<in> set (matches (Grp r) s)"
    and "\<And>g'. (g', t) \<in> set (matches r s) \<Longrightarrow> g' = [] \<and> (\<exists>p. s = p @ t \<and> Q p)"
  shows "\<exists>p. s = p @ t \<and> g = [p] \<and> Q p"
proof -
  from assms(1) obtain g' where g': "(g', t) \<in> set (matches r s)"
    and g: "g = take (length s - length t) s # g'"
    unfolding in_matches_Grp by blast
  from assms(2)[OF g'] obtain p where p: "g' = []" "s = p @ t" "Q p" by blast
  have "take (length s - length t) s = p" using p(2) by simp
  then show ?thesis using g p by blast
qed

lemma year_shape:
  assumes "(g, t) \<in> set (matches year_re s)"
  shows "\<exists>p. s = p @ t \<and> g = [p] \<and> digit_string 4 p"
  using assms unfolding year_re_def seqs.simps
proof (rule group_shape)
  fix g'
  assume "(g', t) \<in> set (matches (Seq (Cls digits) (Seq (Cls digits) (Seq (Cls digits) (Cls digits)))) s)"
  then obtain a b c d where "s = [a, b, c, d] @ t" "g' = []"
    "a \<in> set digits" "b \<in> set digits" "c \<in> set digits" "d \<in> set digits"
    unfolding in_matches_Seq in_matches_Cls by auto
  then have "g' = [] \<and> s = [a, b, c, d] @ t \<and> digit_string 4 [a, b, c, d]"
    by (simp add: digit_string_def is_digit_def)
  then show "g' = [] \<and> (\<exists>p. s = p @ t \<and> digit_string 4 p)" by blast
qed

lemma short_field_1: "is_digit a \<Longrightarrow> short_field [a]"
  by (simp add: short_field_def)

lemma short_field_2: "is_digit a \<Longrightarrow> is_digit b \<Longrightarrow> short_field [a, b]"
  by (simp add: short_field_def)

lemma month_shape:
  assumes "(g, t) \<in> set (matches month_re s)"
  shows "\<exists>p. s = p @ t \<and> g = [p] \<and> short_field p"
  using assms unfolding month_re_def alts.simps
proof (rule group_shape)
  fix g'
  assume "(g', t) \<in> set (matches (Alt (Seq (Lit ''1'') (Cls ''012''))
             (Alt (Seq (Lit ''0'') (Cls nonzero)) (Cls nonzero))) s)"
  then consider c where "s = [CHR ''1'', c] @ t" "g' = []" "c \<in> set ''012''"
    | c where "s = [CHR ''0'', c] @ t" "g' = []" "c \<in> set nonzero"
    | c where "s = [c] @ t" "g' = []" "c \<in> set nonzero"
    unfolding in_matches_Alt in_matches_Seq in_matches_Cls in_matches_Lit by auto
  then show "g' = [] \<and> (\<exists>p. s = p @ t \<and> short_field p)"
  proof cases
    case 1
    then have "short_field [CHR ''1'', c]" by (intro short_field_2 digit_members)
    then show ?thesis using 1 by blast
  next
    case 2
    then have "short_field [CHR ''0'', c]" by (intro short_field_2 digit_members)
    then show ?thesis using 2 by blast
  next
    case 3
    then have "short_field [c]" by (intro short_field_1 digit_members)
    then show ?thesis using 3 by blast
  qed
qed

lemma day_shape:
  assumes "(g, t) \<in> set (matches day_re s)"
  shows "\<exists>p. s = p @ t \<and> g = [p] \<and> (short_field p \<or> blank_padded p)"
  using assms unfolding day_re_def alts.simps
proof (rule group_shape)
  fix g'
  assume "(g', t) \<in> set (matches (Alt (Seq (Lit ''3'') (Cls ''01''))
      (Alt (Seq (Cls ''12'') (Cls digits)) (Alt (Seq (Lit ''0'') (Cls nonzero))
        (Alt (Cls nonzero) (Seq (Lit '' '') (Cls nonzero)))))) s)"
  then consider c where "s = [CHR ''3'', c] @ t" "g' = []" "c \<in> set ''01''"
    | a c where "s = [a, c] @ t" "g' = []" "a \<in> set ''12''" "c \<in> set digits"
    | c where "s = [CHR ''0'', c] @ t" "g' = []" "c \<in> set nonzero"
    | c where "s = [c] @ t" "g' = []" "c \<in> set nonzero"
    | c where "s = [CHR '' '', c] @ t" "g' = []" "c \<in> set nonzero"
    unfolding in_matches_Alt in_matches_Seq in_matches_Cls in_matches_Lit by auto
  then show "g' = [] \<and> (\<exists>p. s = p @ t \<and> (short_field p \<or> blank_padded p))"
  proof cases
    case 1
    then have "short_field [CHR ''3'', c]" by (intro short_field_2 digit_members)
    then show ?thesis using 1 by blast
  next
    case 2
    then have "short_field [a, c]" by (intro short_field_2 digit_members)
    then show ?thesis using 2 by blast
  next
    case 3
    then have "short_field [CHR ''0'', c]" by (intro short_field_2 digit_members)
    then show ?thesis using 3 by blast
  next
    case 4
    then have "short_field [c]" by (intro short_field_1 digit_members)
    then show ?thesis using 4 by blast
  next
    case 5
    then have "blank_padded [CHR '' '', c]" by (simp add: blank_padded_def)
    then show ?thesis using 5 by blast
  qed
qed

lemma hour_shape:
  assumes "(g, t) \<in> set (matches hour_re s)"
  shows "\<exists>p. s = p @ t \<and> g = [p] \<and> short_field p"
  using assms unfolding hour_re_def alts.simps
proof (rule group_shape)
  fix g'
  assume "(g', t) \<in> set (matches (Alt (Seq (Lit ''2'') (Cls ''0123''))
             (Alt (Seq (Cls ''01'') (Cls digits)) (Cls digits))) s)"
  then consider c where "s = [CHR ''2'', c] @ t" "g' = []" "c \<in> set ''0123''"
    | a c where "s = [a, c] @ t" "g' = []" "a \<in> set ''01''" "c \<in> set digits"
    | c where "s = [c] @ t" "g' = []" "c \<in> set digits"
    unfolding in_matches_Alt in_matches_Seq in_matches_Cls in_matches_Lit by auto
  then show "g' = [] \<and> (\<exists>p. s = p @ t \<and> short_field p)"
  proof cases
    case 1
    then have "short_field [CHR ''2'', c]" by (intro short_field_2 digit_members)
    then show ?thesis using 1 by blast
  next
    case 2
    then have "short_field [a, c]" by (intro short_field_2 digit_members)
    then show ?thesis using 2 by blast
  next
    case 3
    then have "short_field [c]" by (intro short_field_1 digit_members)
    then show ?thesis using 3 by blast
  qed
qed

lemma minute_shape:
  assumes "(g, t) \<in> set (matches minute_re s)"
  shows "\<exists>p. s = p @ t \<and> g = [p] \<and> short_field p"
  using assms unfolding minute_re_def alts.simps
proof (rule group_shape)
  fix g'
  assume "(g', t) \<in> set (matches (Alt (Seq (Cls ''012345'') (Cls digits)) (Cls digits)) s)"
  then consider a c where "s = [a, c] @ t" "g' = []" "a \<in> set ''012345''" "c \<in> set digits"
    | c where "s = [c] @ t" "g' = []" "c \<in> set digits"
    unfolding in_matches_Alt in_matches_Seq in_matches_Cls in_matches_Lit by auto
  then show "g' = [] \<and> (\<exists>p. s = p @ t \<and> short_field p)"
  proof cases
    case 1
    then have "short_field [a, c]" by (intro short_field_2 digit_members)
    then show ?thesis using 1 by blast
  next
    case 2
    then have "short_field [c]" by (intro short_field_1 digit_members)
    then show ?thesis using 2 by blast
  qed
qed

lemma second_shape:
  assumes "(g, t) \<in> set (matches second_re s)"
  shows "\<exists>p. s = p @ t \<and> g = [p] \<and> short_field p"
  using assms unfolding second_re_def alts.simps
proof (rule group_shape)
  fix g'
  assume "(g', t) \<in> set (matches (Alt (Seq (Lit ''6'') (Cls ''01''))
             (Alt (Seq (Cls ''012345'') (Cls digits)) (Cls digits))) s)"
  then consider c where "s = [CHR ''6'', c] @ t" "g' = []" "c \<in> set ''01''"
    | a c where "s = [a, c] @ t" "g' = []" "a \<in> set ''012345''" "c \<in> set digits"
    | c where "s = [c] @ t" "g' = []" "c \<in> set digits"
    unfolding in_matches_Alt in_matches_Seq in_matches_Cls in_matches_Lit by auto
  then show "g' = [] \<and> (\<exists>p. s = p @ t \<and> short_field p)"
  proof cases
    case 1
    then have "short_field [CHR ''6'', c]" by (intro short_field_2 digit_members)
    then show ?thesis using 1 by blast
  next
    case 2
    then have "short_field [a, c]" by (intro short_field_2 digit_members)
    then show ?thesis using 2 by blast
  next
    case 3
    then have "short_field [c]" by (intro short_field_1 digit_members)
    then show ?thesis using 3 by blast
  qed
qed

lemma fraction_shape:
  assumes "(g, t) \<in> set (matches fraction_re s)"
  shows "\<exists>p. s = p @ t \<and> g = [p] \<and> p \<noteq> [] \<and> length p \<le> 6 \<and> (\<forall>c \<in> set p. is_digit c)"
  using assms unfolding fraction_re_def
proof (rule group_shape)
  fix g'
  assume "(g', t) \<in> set (matches (Rep digits 1 (Some 6)) s)"
  then obtain p where p: "s = p @ t" "1 \<le> length p" "length p \<le> 6"
    "\<forall>c \<in> set p. c \<in> set digits" "g' = []"
    using in_matches_Rep by blast
  then have "p \<noteq> []" by auto
  then show "g' = [] \<and> (\<exists>p. s = p @ t \<and> p \<noteq> [] \<and> length p \<le> 6 \<and> (\<forall>c \<in> set p. is_digit c))"
    using p by (auto simp: is_digit_def)
qed

lemma seq_field:
  assumes "(g, t) \<in> set (matches (Seq fr (Seq (Lit sep) r)) s)"
    and "\<And>g t s. (g, t) \<in> set (matches fr s) \<Longrightarrow> \<exists>p. s = p @ t \<and> g = [p] \<and> Q p"
  shows "\<exists>p s' g'. s = p @ sep @ s' \<and> g = p # g' \<and> Q p \<and> (g', t) \<in> set (matches r s')"
proof -
  from assms(1) obtain g1 s1 g2 s2 g3 where a: "(g1, s1) \<in> set (matches fr s)"
    and b: "(g2, s2) \<in> set (matches (Lit sep) s1)" and c: "(g3, t) \<in> set (matches r s2)"
    and g: "g = g1 @ g2 @ g3"
    unfolding in_matches_Seq by blast
  from assms(2)[OF a] obtain p where p: "s = p @ s1" "g1 = [p]" "Q p" by blast
  from b have "g2 = []" "s1 = sep @ s2" unfolding in_matches_Lit by simp_all
  then have "s = p @ sep @ s2 \<and> g = p # g3 \<and> Q p \<and> (g3, t) \<in> set (matches r s2)"
    using p g c by simp
  then show ?thesis by blast
qed

lemma seq_day:
  assumes "(g, t) \<in> set (matches (Seq day_re (Seq (Rep whitespace 1 None) r)) s)"
  shows "\<exists>p w s' g'. s = p @ w @ s' \<and> g = p # g' \<and> (short_field p \<or> blank_padded p) \<and>
           w \<noteq> [] \<and> (\<forall>c \<in> set w. c \<in> set whitespace) \<and> (g', t) \<in> set (matches r s')"
proof -
  from assms(1) obtain g1 s1 g2 s2 g3 where a: "(g1, s1) \<in> set (matches day_re s)"
    and b: "(g2, s2) \<in> set (matches (Rep whitespace 1 None) s1)"
    and c: "(g3, t) \<in> set (matches r s2)" and g: "g = g1 @ g2 @ g3"
    unfolding in_matches_Seq by blast
  from day_shape[OF a] obtain p where p: "s = p @ s1" "g1 = [p]" "short_field p \<or> blank_padded p"
    by blast
  from in_matches_Rep[OF b] obtain w where w: "s1 = w @ s2" "1 \<le> length w"
    "\<forall>c \<in> set w. c \<in> set whitespace" "g2 = []"
    by blast
  have "w \<noteq> []" using w(2) by auto
  then have "s = p @ w @ s2 \<and> g = p # g3 \<and> (short_field p \<or> blank_padded p) \<and>
           w \<noteq> [] \<and> (\<forall>c \<in> set w. c \<in> set whitespace) \<and> (g3, t) \<in> set (matches r s2)"
    using p w g c by simp
  then show ?thesis by blast
qed

lemma timestamp_shape:
  assumes "(g, t) \<in> set (matches timestamp_re s)"
  shows "\<exists>Y m d w H M S f.
           s = Y @ ''-'' @ m @ ''-'' @ d @ w @ H @ '':'' @ M @ '':'' @ S @ '','' @ f @ t \<and>
           g = [Y, m, d, H, M, S, f] \<and> digit_string 4 Y \<and> short_field m \<and>
           (short_field d \<or> blank_padded d) \<and> w \<noteq> [] \<and> (\<forall>c \<in> set w. c \<in> set whitespace) \<and>
           short_field H \<and> short_field M \<and> short_field S \<and>
           f \<noteq> [] \<and> length f \<le> 6 \<and> (\<forall>c \<in> set f. is_digit c)"
proof -
  from assms obtain Y s1 g1 where e1: "s = Y @ ''-'' @ s1" "g = Y # g1" "digit_string 4 Y"
    and r1: "(g1, t) \<in> set (matches (Seq month_re (Seq (Lit ''-'') (Seq day_re
       (Seq (Rep whitespace 1 None) (Seq hour_re (Seq (Lit '':'') (Seq minute_re (Seq (Lit '':'')
          (Seq second_re (Seq (Lit '','') fraction_re)))))))))) s1)"
    unfolding timestamp_re_eq using seq_field[OF _ year_shape] by blast
  from r1 obtain m s2 g2 where e2: "s1 = m @ ''-'' @ s2" "g1 = m # g2" "short_field m"
    and r2: "(g2, t) \<in> set (matches (Seq day_re
       (Seq (Rep whitespace 1 None) (Seq hour_re (Seq (Lit '':'') (Seq minute_re (Seq (Lit '':'')
          (Seq second_re (Seq (Lit '','') fraction_re)))))))) s2)"
    using seq_field[OF _ month_shape] by blast
  from seq_day[OF r2] obtain d w s3 g3 where e3: "s2 = d @ w @ s3" "g2 = d # g3"
    "short_field d \<or> blank_padded d" "w \<noteq> []" "\<forall>c \<in> set w. c \<in> set whitespace"
    and r3: "(g3, t) \<in> set (matches (Seq hour_re (Seq (Lit '':'') (Seq minute_re (Seq (Lit '':'')
          (Seq second_re (Seq (Lit '','') fraction_re)))))) s3)"
    by blast
  from r3 obtain H s4 g4 where e4: "s3 = H @ '':'' @ s4" "g3 = H # g4" "short_field H"
    and r4: "(g4, t) \<in> set (matches (Seq minute_re (Seq (Lit '':'')
          (Seq second_re (Seq (Lit '','') fraction_re)))) s4)"
    using seq_field[OF _ hour_shape] by blast
  from r4 obtain M s5 g5 where e5: "s4 = M @ '':'' @ s5" "g4 = M # g5" "short_field M"
    and r5: "(g5, t) \<in> set (matches (Seq second_re (Seq (Lit '','') fraction_re)) s5)"
    using seq_field[OF _ minute_shape] by blast
  from r5 obtain S s6 g6 where e6: "s5 = S @ '','' @ s6" "g5 = S # g6" "short_field S"
    and r6: "(g6, t) \<in> set (matches fraction_re s6)"
    using seq_field[OF _ second_shape] by blast
  from fraction_shape[OF r6] obtain f where e7: "s6 = f @ t" "g6 = [f]" "f \<noteq> []" "length f \<le> 6"
    "\<forall>c \<in> set f. is_digit c"
    by blast
  have "s = Y @ ''-'' @ m @ ''-'' @ d @ w @ H @ '':'' @ M @ '':'' @ S @ '','' @ f @ t"
    unfolding e1(1) e2(1) e3(1) e4(1) e5(1) e6(1) e7(1) by simp
  moreover have "g = [Y, m, d, H, M, S, f]"
    unfolding e1(2) e2(2) e3(2) e4(2) e5(2) e6(2) e7(2) ..
  ultimately show ?thesis using e1(3) e2(3) e3(3,4,5) e4(3) e5(3) e6(3) e7(3,4,5) by blast
qed

lemma py_int_short: "short_field s \<Longrightarrow> py_int s = Inr (int (digits_val s))"
  by (rule py_int_digits) (auto simp: short_field_def max_str_digits_def)

lemma py_int_blank:
  assumes "blank_padded d"
  shows "\<exists>c. d = [CHR '' '', c] \<and> c \<in> set nonzero \<and> py_int d = Inr (int (digit_val c))"
proof -
  from assms obtain c where d: "d = [CHR '' '', c]" and c: "c \<in> set nonzero"
    by (auto simp: blank_padded_def split: list.splits)
  have "c \<notin> set int_whitespace" using c by (auto simp: nonzero_def int_whitespace_def)
  then have "strip d = [c]" unfolding d by (simp add: strip_def int_whitespace_def)
  moreover have "is_digit c" using c by (rule digit_members)
  ultimately have "py_int d = Inr (int (digits_val [c]))"
    by (simp add: py_int_def max_str_digits_def)
  then show ?thesis using d c by (simp add: digits_val_def)
qed

lemma days_in_month_ge: "0 \<le> days_in_month y m"
  by (simp add: days_in_month_def)

lemma nonzero_val: "c \<in> set nonzero \<Longrightarrow> 1 \<le> digit_val c \<and> digit_val c \<le> 9"
  by (auto simp: nonzero_def digit_val_simps)

lemma strptime_admitted:
  assumes "strptime s = Inr t"
  shows "admitted s"
proof -
  from assms obtain found where rm: "re_match timestamp_re s = Some (found, [])"
    by (auto simp: strptime_def split: option.splits if_splits)
  then have "(found, []) \<in> set (matches timestamp_re s)"
    by (auto simp: re_match_def split: list.splits)
  from timestamp_shape[OF this] obtain Y m d w H M S f where
    s: "s = Y @ ''-'' @ m @ ''-'' @ d @ w @ H @ '':'' @ M @ '':'' @ S @ '','' @ f"
    and found: "found = [Y, m, d, H, M, S, f]"
    and sh: "digit_string 4 Y" "short_field m" "short_field d \<or> blank_padded d" "w \<noteq> []"
      "\<forall>c \<in> set w. c \<in> set whitespace" "short_field H" "short_field M" "short_field S"
      "f \<noteq> []" "length f \<le> 6" "\<forall>c \<in> set f. is_digit c"
    by auto
  obtain dv where dv: "py_int d = Inr (int dv)"
    and dd: "short_field d \<and> dv = digits_val d \<or> blank_padded d"
    using sh(3) py_int_short[of d] py_int_blank[of d] by blast
  have i: "py_int Y = Inr (int (digits_val Y))" "py_int m = Inr (int (digits_val m))"
    "py_int H = Inr (int (digits_val H))" "py_int M = Inr (int (digits_val M))"
    "py_int S = Inr (int (digits_val S))"
    "py_int (pad_fraction f) = Inr (int (digits_val (pad_fraction f)))"
    using sh by (simp_all add: py_int_short py_int_field pad_fraction_digits)
  have v: "valid_datetime \<lparr>year = int (digits_val Y), month = int (digits_val m), day = int dv,
      hour = int (digits_val H), minute = int (digits_val M), second = int (digits_val S),
      microsecond = int (digits_val (pad_fraction f))\<rparr>"
    using assms unfolding strptime_def rm found
    by (simp add: i dv Let_def split: if_splits)
  have a: "1 \<le> digits_val Y" "digit_field 1 12 m" "digit_field 0 23 H" "digit_field 0 59 M"
    "digit_field 0 59 S"
    using v sh by (simp_all add: valid_datetime_def digit_field_def short_field_def)
  have "digit_field 1 (nat (days_in_month (int (digits_val Y)) (int (digits_val m)))) d \<or>
        blank_padded d"
    using dd
  proof
    assume "short_field d \<and> dv = digits_val d"
    then show ?thesis using v
      by (simp add: valid_datetime_def digit_field_def short_field_def le_nat_iff
          days_in_month_ge)
  next
    assume "blank_padded d"
    then show ?thesis ..
  qed
  then have "admitted_parts Y m d w H M S f"
    using a sh by (simp add: admitted_parts_def)
  then show ?thesis unfolding admitted_def using s by blast
qed

lemma field_cases:
  assumes "digit_field lo hi s"
  obtains a where "s = [a]" "a \<in> set digits" "lo \<le> digit_val a" "digit_val a \<le> hi"
  | a b where "s = [a, b]" "a \<in> set digits" "b \<in> set digits" "lo \<le> digits_val [a, b]"
      "digits_val [a, b] \<le> hi"
proof -
  from assms have l: "length s = 1 \<or> length s = 2" and d: "\<forall>c \<in> set s. c \<in> set digits"
    and v: "lo \<le> digits_val s" "digits_val s \<le> hi"
    by (auto simp: digit_field_def is_digit_def)
  from l show ?thesis
  proof
    assume "length s = 1"
    then obtain a where s: "s = [a]" by (cases s) auto
    then have "digits_val s = digit_val a" by (simp add: digits_val_def)
    then show ?thesis using that(1) s d v by simp
  next
    assume "length s = 2"
    then obtain a b where s: "s = [a, b]" by (cases s; cases "tl s") auto
    then show ?thesis using that(2) d v by simp
  qed
qed

lemma nonzero_I: "a \<in> set digits \<Longrightarrow> 1 \<le> digit_val a \<Longrightarrow> a \<in> set nonzero"
  by (drule digit_cases) (elim disjE; simp add: digit_val_simps nonzero_def)

lemma sep_not_digit:
  "CHR ''-'' \<notin> set digits" "CHR '':'' \<notin> set digits" "CHR '','' \<notin> set digits"
  "CHR ''-'' \<notin> set ''012''"
  by (simp_all add: digits_def)

lemma month_field_1:
  assumes "a \<in> set nonzero"
  shows "matches (Seq month_re (Seq (Lit ''-'') r)) (a # CHR ''-'' # rest) =
           map (\<lambda>(g, t). ([a] # g, t)) (matches r rest)"
proof -
  have d: "a \<in> set digits" using assms by (auto simp: nonzero_def digits_def)
  have "a \<noteq> CHR ''0''" using assms by (auto simp: nonzero_def)
  then show ?thesis using assms digit_not_sep(1)[OF d] digit_not_sep(1)[OF d, symmetric]
    by (simp add: month_re_def comp_def split_def sep_not_digit)
qed

lemma hour_field_1:
  assumes "a \<in> set digits"
  shows "matches (Seq hour_re (Seq (Lit '':'') r)) (a # CHR '':'' # rest) =
           map (\<lambda>(g, t). ([a] # g, t)) (matches r rest)"
  using assms digit_not_sep(2)[OF assms] digit_not_sep(2)[OF assms, symmetric]
  by (simp add: hour_re_def comp_def split_def sep_not_digit)

lemma minute_field_1:
  assumes "a \<in> set digits"
  shows "matches (Seq minute_re (Seq (Lit '':'') r)) (a # CHR '':'' # rest) =
           map (\<lambda>(g, t). ([a] # g, t)) (matches r rest)"
  using assms digit_not_sep(2)[OF assms] digit_not_sep(2)[OF assms, symmetric]
  by (simp add: minute_re_def comp_def split_def sep_not_digit)

lemma second_field_1:
  assumes "a \<in> set digits"
  shows "matches (Seq second_re (Seq (Lit '','') r)) (a # CHR '','' # rest) =
           map (\<lambda>(g, t). ([a] # g, t)) (matches r rest)"
  using assms digit_not_sep(3)[OF assms] digit_not_sep(3)[OF assms, symmetric]
  by (simp add: second_re_def comp_def split_def sep_not_digit)

lemma month_field_gen:
  assumes "digit_field 1 12 m"
  shows "matches (Seq month_re (Seq (Lit ''-'') r)) (m @ CHR ''-'' # rest) =
           map (\<lambda>(g, t). (m # g, t)) (matches r rest)"
  using assms
proof (cases rule: field_cases)
  case (1 a)
  show ?thesis unfolding 1(1) using month_field_1[OF nonzero_I[OF 1(2,3)]] by simp
next
  case (2 a b)
  show ?thesis unfolding 2(1) using month_field[OF month_ok_I[OF 2(2-5)]] by simp
qed

lemma hour_field_gen:
  assumes "digit_field 0 23 H"
  shows "matches (Seq hour_re (Seq (Lit '':'') r)) (H @ CHR '':'' # rest) =
           map (\<lambda>(g, t). (H # g, t)) (matches r rest)"
  using assms
proof (cases rule: field_cases)
  case (1 a)
  show ?thesis unfolding 1(1) using hour_field_1[OF 1(2)] by simp
next
  case (2 a b)
  show ?thesis unfolding 2(1) using hour_field[OF hour_ok_I[OF 2(2,3,5)]] by simp
qed

lemma minute_field_gen:
  assumes "digit_field 0 59 M"
  shows "matches (Seq minute_re (Seq (Lit '':'') r)) (M @ CHR '':'' # rest) =
           map (\<lambda>(g, t). (M # g, t)) (matches r rest)"
  using assms
proof (cases rule: field_cases)
  case (1 a)
  show ?thesis unfolding 1(1) using minute_field_1[OF 1(2)] by simp
next
  case (2 a b)
  show ?thesis unfolding 2(1) using minute_field[OF sixty_ok_I[OF 2(2,3,5)] 2(3)] by simp
qed

lemma second_field_gen:
  assumes "digit_field 0 59 S"
  shows "matches (Seq second_re (Seq (Lit '','') r)) (S @ CHR '','' # rest) =
           map (\<lambda>(g, t). (S # g, t)) (matches r rest)"
  using assms
proof (cases rule: field_cases)
  case (1 a)
  show ?thesis unfolding 1(1) using second_field_1[OF 1(2)] by simp
next
  case (2 a b)
  show ?thesis unfolding 2(1) using second_field[OF sixty_ok_I[OF 2(2,3,5)] 2(3)] by simp
qed

lemma year_field_gen:
  assumes "digit_string 4 Y"
  shows "matches (Seq year_re (Seq (Lit ''-'') r)) (Y @ CHR ''-'' # rest) =
           map (\<lambda>(g, t). (Y # g, t)) (matches r rest)"
proof -
  from assms obtain a b c d where Y: "Y = [a, b, c, d]"
    and y: "a \<in> set digits" "b \<in> set digits" "c \<in> set digits" "d \<in> set digits"
    using digit_string_4[of Y] by blast
  show ?thesis unfolding Y using year_field[OF y] by simp
qed

lemma whitespace_not_hour:
  assumes "c \<in> set whitespace"
  shows "matches (Seq hour_re r) (c # t) = []"
proof -
  have "c \<notin> set digits" using assms digit_not_sep(5)[of c] by blast
  moreover have "c \<noteq> CHR ''2''" "c \<notin> set ''01''"
    using calculation by (auto simp: digits_def)
  ultimately show ?thesis by (simp add: hour_re_def)
qed

lemma whitespace_run:
  assumes "w \<noteq> []" "\<forall>c \<in> set w. c \<in> set whitespace" "h \<notin> set whitespace"
  shows "matches (Seq (Rep whitespace 1 None) (Seq hour_re r)) (w @ h # rest) =
           matches (Seq hour_re r) (h # rest)"
proof -
  let ?s = "w @ h # rest"
  let ?P = "\<lambda>c. c \<in> set whitespace"
  let ?f = "\<lambda>k. matches (Seq hour_re r) (drop k ?s)"
  have tw: "takeWhile ?P ?s = w" using assms(2,3) by (simp add: takeWhile_append2)
  have "?f k = []" if kn: "k < length (takeWhile ?P ?s)" for k
  proof -
    obtain c t where "drop k ?s = c # t" "c \<in> set whitespace" using drop_run_hd[OF kn] by blast
    then show ?thesis by (simp only: whitespace_not_hour)
  qed
  then have "concat (map ?f (rev [1 ..< Suc (length (takeWhile ?P ?s))])) =
      (if 1 \<le> length (takeWhile ?P ?s) then ?f (length (takeWhile ?P ?s)) else [])"
    by (intro concat_top) auto
  moreover have "1 \<le> length w" using assms(1) by (cases w) auto
  ultimately show ?thesis
    unfolding matches_Seq_Rep tw by simp
qed

lemma not_whitespace_run: "c \<notin> set whitespace \<Longrightarrow> matches (Seq (Rep whitespace 1 None) r) (c # t) = []"
  by simp

lemma day_re_2:
  assumes "day_ok a b"
  shows "matches day_re (a # b # rest) = [([[a, b]], rest)] \<or>
         matches day_re (a # b # rest) = [([[a, b]], rest), ([[a]], b # rest)]"
  using assms unfolding day_ok_def
  by (elim disjE conjE; simp add: day_re_def nonzero_def digits_def; elim disjE; simp)

lemma day_re_1:
  assumes "a \<in> set nonzero" "c \<in> set whitespace"
  shows "matches day_re (a # c # rest) = [([[a]], c # rest)]"
proof -
  have d: "a \<in> set digits" using assms(1) by (auto simp: nonzero_def digits_def)
  have c: "c \<notin> set digits" using assms(2) digit_not_sep(5)[of c] by blast
  then have c': "c \<notin> set ''01''" "c \<notin> set nonzero" by (auto simp: digits_def nonzero_def)
  have a: "a \<noteq> CHR ''0''" "a \<noteq> CHR '' ''"
    using assms(1) by (auto simp: nonzero_def)
  show ?thesis using assms(1) a c c'
    by (simp add: day_re_def)
qed

lemma day_re_blank:
  assumes "a \<in> set nonzero"
  shows "matches day_re (CHR '' '' # a # rest) = [([[CHR '' '', a]], rest)]"
  using assms by (simp add: day_re_def nonzero_def digits_def)

lemma day_field_gen:
  assumes "digit_field 1 31 d \<or> blank_padded d"
    and "w \<noteq> []" "\<forall>c \<in> set w. c \<in> set whitespace" "h \<in> set digits"
  shows "matches (Seq day_re (Seq (Rep whitespace 1 None) (Seq hour_re r))) (d @ w @ h # rest) =
           map (\<lambda>(g, t). (d # g, t)) (matches (Seq hour_re r) (h # rest))"
proof -
  let ?R = "Seq (Rep whitespace 1 None) (Seq hour_re r)"
  have hw: "h \<notin> set whitespace" using digit_not_sep(5)[OF assms(4)] .
  have run: "matches ?R (w @ h # rest) = matches (Seq hour_re r) (h # rest)"
    by (rule whitespace_run[OF assms(2,3) hw])
  obtain c w' where w: "w = c # w'" "c \<in> set whitespace"
    using assms(2,3) by (cases w) auto
  from assms(1) consider a where "d = [a]" "a \<in> set nonzero"
    | a b where "d = [a, b]" "day_ok a b"
    | a where "d = [CHR '' '', a]" "a \<in> set nonzero"
  proof
    assume "digit_field 1 31 d"
    then show ?thesis
    proof (cases rule: field_cases)
      case (1 a)
      then show ?thesis using that(1) nonzero_I by blast
    next
      case (2 a b)
      then show ?thesis using that(2) day_ok_I by blast
    qed
  next
    assume "blank_padded d"
    then show ?thesis using that(3) by (auto simp: blank_padded_def split: list.splits)
  qed
  then show ?thesis
  proof cases
    case 1
    have "matches day_re (d @ w @ h # rest) = [([d], w @ h # rest)]"
      unfolding 1(1) w(1) using day_re_1[OF 1(2) w(2)] by simp
    then show ?thesis
      unfolding matches.simps(3)[of day_re] run[symmetric] by (simp del: matches.simps)
  next
    case 2
    have b: "b \<notin> set whitespace"
      using 2(2) digit_not_sep(5)[of b] by (auto simp: day_ok_def nonzero_def digits_def)
    have n: "matches ?R (b # w @ h # rest) = []" using b by (rule not_whitespace_run)
    have "matches day_re (d @ w @ h # rest) = [([d], w @ h # rest)] \<or>
          matches day_re (d @ w @ h # rest) = [([d], w @ h # rest), ([[a]], b # w @ h # rest)]"
      unfolding 2(1) using day_re_2[OF 2(2), of "w @ h # rest"] by simp
    then show ?thesis
      unfolding matches.simps(3)[of day_re] run[symmetric]
      using n by (elim disjE; simp del: matches.simps)
  next
    case 3
    have "matches day_re (d @ w @ h # rest) = [([d], w @ h # rest)]"
      unfolding 3(1) using day_re_blank[OF 3(2)] by simp
    then show ?thesis
      unfolding matches.simps(3)[of day_re] run[symmetric] by (simp del: matches.simps)
  qed
qed

lemma field_hd_digit:
  assumes "digit_field lo hi s"
  shows "\<exists>h t. s = h # t \<and> h \<in> set digits"
  using assms by (cases rule: field_cases) auto

lemma re_match_admitted:
  assumes "digit_string 4 Y" "digit_field 1 12 m" "digit_field 1 31 d \<or> blank_padded d"
    and "w \<noteq> []" "\<forall>c \<in> set w. c \<in> set whitespace"
    and "digit_field 0 23 H" "digit_field 0 59 M" "digit_field 0 59 S"
    and "f \<noteq> []" "length f \<le> 6" "\<forall>c \<in> set f. is_digit c"
  shows "re_match timestamp_re
           (Y @ ''-'' @ m @ ''-'' @ d @ w @ H @ '':'' @ M @ '':'' @ S @ '','' @ f) =
         Some ([Y, m, d, H, M, S, f], [])"
proof -
  obtain h H' where H: "H = h # H'" and h: "h \<in> set digits"
    using field_hd_digit[OF assms(6)] by blast
  have fd: "\<forall>c \<in> set f. c \<in> set digits" using assms(11) by (simp add: is_digit_def)
  obtain ms where ms: "matches fraction_re f = ([f], []) # ms"
    using fraction_field[OF assms(9,10) fd] by blast
  let ?r5 = "Seq second_re (Seq (Lit '','') fraction_re)"
  let ?r4 = "Seq minute_re (Seq (Lit '':'') ?r5)"
  let ?r3 = "Seq hour_re (Seq (Lit '':'') ?r4)"
  let ?r2 = "Seq day_re (Seq (Rep whitespace 1 None) ?r3)"
  let ?r1 = "Seq month_re (Seq (Lit ''-'') ?r2)"
  have s5: "matches ?r5 (S @ CHR '','' # f) = map (\<lambda>(g, t). (S # g, t)) (matches fraction_re f)"
    by (rule second_field_gen[OF assms(8)])
  have s4: "matches ?r4 (M @ CHR '':'' # S @ CHR '','' # f) =
      map (\<lambda>(g, t). (M # g, t)) (matches ?r5 (S @ CHR '','' # f))"
    by (rule minute_field_gen[OF assms(7)])
  have s3: "matches ?r3 (H @ CHR '':'' # M @ CHR '':'' # S @ CHR '','' # f) =
      map (\<lambda>(g, t). (H # g, t)) (matches ?r4 (M @ CHR '':'' # S @ CHR '','' # f))"
    by (rule hour_field_gen[OF assms(6)])
  have "matches ?r2 (d @ w @ h # H' @ CHR '':'' # M @ CHR '':'' # S @ CHR '','' # f) =
      map (\<lambda>(g, t). (d # g, t))
        (matches ?r3 (h # H' @ CHR '':'' # M @ CHR '':'' # S @ CHR '','' # f))"
    by (rule day_field_gen[OF assms(3,4,5) h])
  then have s2: "matches ?r2 (d @ w @ H @ CHR '':'' # M @ CHR '':'' # S @ CHR '','' # f) =
      map (\<lambda>(g, t). (d # g, t))
        (matches ?r3 (H @ CHR '':'' # M @ CHR '':'' # S @ CHR '','' # f))"
    unfolding H by simp
  have s1: "matches ?r1 (m @ CHR ''-'' # d @ w @ H @ CHR '':'' # M @ CHR '':'' # S @ CHR '','' # f) =
      map (\<lambda>(g, t). (m # g, t))
        (matches ?r2 (d @ w @ H @ CHR '':'' # M @ CHR '':'' # S @ CHR '','' # f))"
    by (rule month_field_gen[OF assms(2)])
  have s0: "matches timestamp_re
      (Y @ CHR ''-'' # m @ CHR ''-'' # d @ w @ H @ CHR '':'' # M @ CHR '':'' # S @ CHR '','' # f) =
      map (\<lambda>(g, t). (Y # g, t))
        (matches ?r1 (m @ CHR ''-'' # d @ w @ H @ CHR '':'' # M @ CHR '':'' # S @ CHR '','' # f))"
    unfolding timestamp_re_eq by (rule year_field_gen[OF assms(1)])
  have "matches timestamp_re
      (Y @ CHR ''-'' # m @ CHR ''-'' # d @ w @ H @ CHR '':'' # M @ CHR '':'' # S @ CHR '','' # f) =
      ([Y, m, d, H, M, S, f], []) #
      map (\<lambda>(g, t). (Y # g, t)) (map (\<lambda>(g, t). (m # g, t)) (map (\<lambda>(g, t). (d # g, t))
        (map (\<lambda>(g, t). (H # g, t)) (map (\<lambda>(g, t). (M # g, t)) (map (\<lambda>(g, t). (S # g, t)) ms)))))"
    unfolding s0 s1 s2 s3 s4 s5 ms by simp
  then show ?thesis by (simp add: re_match_def)
qed

lemma digits_val_lt: "\<forall>c \<in> set s. is_digit c \<Longrightarrow> digits_val s < 10 ^ length s"
proof (induction s rule: rev_induct)
  case Nil
  then show ?case by (simp add: digits_val_def)
next
  case (snoc c s)
  have "digit_val c \<le> 9" using snoc.prems by (intro digit_val_le) (simp add: is_digit_def)
  moreover have "digits_val s < 10 ^ length s" using snoc by simp
  ultimately show ?case by (simp add: digits_val_snoc)
qed

lemma days_in_month_28: "28 \<le> days_in_month y m"
  by (simp add: days_in_month_def)

lemma strip_blank:
  assumes "blank_padded d"
  shows "\<exists>c. d = [CHR '' '', c] \<and> c \<in> set nonzero \<and> strip d = [c]"
proof -
  from assms obtain c where d: "d = [CHR '' '', c]" and c: "c \<in> set nonzero"
    by (auto simp: blank_padded_def split: list.splits)
  have "c \<notin> set int_whitespace" using c by (auto simp: nonzero_def int_whitespace_def)
  then have "strip d = [c]" unfolding d by (simp add: strip_def int_whitespace_def)
  then show ?thesis using d c by blast
qed

lemma strptime_parts:
  assumes "admitted_parts Y m d w H M S f"
  shows "strptime (Y @ ''-'' @ m @ ''-'' @ d @ w @ H @ '':'' @ M @ '':'' @ S @ '','' @ f) =
     Inr \<lparr>year = int (digits_val Y), month = int (digits_val m),
          day = int (digits_val (strip d)), hour = int (digits_val H),
          minute = int (digits_val M), second = int (digits_val S),
          microsecond = int (digits_val (pad_fraction f))\<rparr>"
proof -
  let ?dim = "days_in_month (int (digits_val Y)) (int (digits_val m))"
  from assms have a: "digit_string 4 Y" "1 \<le> digits_val Y" "digit_field 1 12 m"
    "digit_field 1 (nat ?dim) d \<or> blank_padded d"
    "w \<noteq> []" "\<forall>c \<in> set w. c \<in> set whitespace"
    "digit_field 0 23 H" "digit_field 0 59 M" "digit_field 0 59 S"
    "f \<noteq> []" "length f \<le> 6" "\<forall>c \<in> set f. is_digit c"
    by (simp_all add: admitted_parts_def)
  have "nat ?dim \<le> 31" using days_in_month_le[of "int (digits_val Y)" "int (digits_val m)"] by simp
  then have d31: "digit_field 1 31 d \<or> blank_padded d"
    using a(4) by (auto simp: digit_field_def)
  have rm: "re_match timestamp_re
      (Y @ ''-'' @ m @ ''-'' @ d @ w @ H @ '':'' @ M @ '':'' @ S @ '','' @ f) =
      Some ([Y, m, d, H, M, S, f], [])"
    by (rule re_match_admitted[OF a(1) a(3) d31 a(5-12)])
  have sf: "short_field m" "short_field H" "short_field M" "short_field S"
    using a by (simp_all add: digit_field_def short_field_def)
  have dv: "py_int d = Inr (int (digits_val (strip d)))"
    and dr: "1 \<le> digits_val (strip d)" "int (digits_val (strip d)) \<le> ?dim"
  proof -
    have "py_int d = Inr (int (digits_val (strip d))) \<and> 1 \<le> digits_val (strip d) \<and>
          int (digits_val (strip d)) \<le> ?dim"
      using a(4)
    proof
      assume f: "digit_field 1 (nat ?dim) d"
      then have sd: "short_field d" by (simp add: digit_field_def short_field_def)
      then have "strip d = d" by (intro strip_digits) (auto simp: short_field_def)
      moreover have "py_int d = Inr (int (digits_val d))" using sd by (rule py_int_short)
      moreover have "1 \<le> digits_val d" "int (digits_val d) \<le> ?dim"
        using f by (simp_all add: digit_field_def le_nat_iff days_in_month_ge)
      ultimately show ?thesis by simp
    next
      assume b: "blank_padded d"
      from py_int_blank[OF b] strip_blank[OF b] obtain c where c: "c \<in> set nonzero"
        "py_int d = Inr (int (digit_val c))" "strip d = [c]"
        by auto
      have "1 \<le> digit_val c" "digit_val c \<le> 9" using nonzero_val[OF c(1)] by simp_all
      moreover have "28 \<le> ?dim" by (rule days_in_month_28)
      ultimately have "1 \<le> digit_val c" "int (digit_val c) \<le> ?dim" by linarith+
      then show ?thesis using c by (simp add: digits_val_def)
    qed
    then show "py_int d = Inr (int (digits_val (strip d)))" "1 \<le> digits_val (strip d)"
      "int (digits_val (strip d)) \<le> ?dim"
      by simp_all
  qed
  have i: "py_int Y = Inr (int (digits_val Y))" "py_int m = Inr (int (digits_val m))"
    "py_int H = Inr (int (digits_val H))" "py_int M = Inr (int (digits_val M))"
    "py_int S = Inr (int (digits_val S))"
    "py_int (pad_fraction f) = Inr (int (digits_val (pad_fraction f)))"
    using a sf by (simp_all add: py_int_short py_int_field pad_fraction_digits)
  have "digits_val Y < 10 ^ length Y"
    using a(1) by (intro digits_val_lt) (simp add: digit_string_def)
  then have y: "digits_val Y \<le> 9999" using a(1) by (simp add: digit_string_def)
  have "\<forall>c \<in> set (pad_fraction f). is_digit c"
    using a(12) digit_members(8) by (auto simp: pad_fraction_def)
  then have "digits_val (pad_fraction f) < 10 ^ length (pad_fraction f)" by (rule digits_val_lt)
  moreover have "length (pad_fraction f) = 6" using a(11) by (simp add: pad_fraction_def)
  ultimately have u: "digits_val (pad_fraction f) \<le> 999999" by simp
  have v: "valid_datetime \<lparr>year = int (digits_val Y), month = int (digits_val m),
      day = int (digits_val (strip d)),
      hour = int (digits_val H), minute = int (digits_val M), second = int (digits_val S),
      microsecond = int (digits_val (pad_fraction f))\<rparr>"
    using a y u dr by (simp add: valid_datetime_def digit_field_def)
  show ?thesis
    unfolding strptime_def rm using i dv v by simp
qed

lemma strptime_iff: "(\<exists>t. strptime s = Inr t) \<longleftrightarrow> admitted s"
proof
  assume "\<exists>t. strptime s = Inr t"
  then show "admitted s" using strptime_admitted by blast
next
  assume "admitted s"
  then show "\<exists>t. strptime s = Inr t" unfolding admitted_def using strptime_parts by blast
qed

lemma well_formed_parts:
  assumes "well_formed Y M D h m s f"
  shows "admitted_parts Y M D '' '' h m s f"
proof -
  have v: "valid_datetime (stamp_value Y M D h m s f)" using assms by (simp add: well_formed_def)
  have "0 \<le> days_in_month y mo" for y mo by (rule days_in_month_ge)
  moreover have "f \<noteq> []" using assms by (auto simp: well_formed_def digit_string_def)
  ultimately show ?thesis
    using assms v
    by (simp add: well_formed_def admitted_parts_def digit_field_def digit_string_def
        valid_datetime_def stamp_value_def whitespace_def le_nat_iff)
qed

lemma strptime_well_formed:
  assumes "well_formed Y M D h m s f"
  shows "strptime (stamp Y M D h m s f) = Inr (stamp_value Y M D h m s f)"
proof -
  from assms obtain f1 f2 f3 where f: "f = [f1, f2, f3]"
    unfolding well_formed_def using digit_string_3[of f] by blast
  have p: "int (digits_val (pad_fraction f)) = 1000 * int (digits_val f)"
    unfolding f by (simp add: digits_val_pad)
  have "D \<noteq> []" "\<forall>c \<in> set D. is_digit c" using assms by (auto simp: well_formed_def digit_string_def)
  then have d: "strip D = D" by (rule strip_digits)
  show ?thesis
    using strptime_parts[OF well_formed_parts[OF assms]]
    unfolding stamp_def stamp_value_def p d by simp
qed

lemma split_stamp:
  assumes "well_formed Y M D h m s f"
  shows "py_split '': '' (stamp Y M D h m s f @ '': '' @ msg) =
           stamp Y M D h m s f # py_split '': '' msg"
proof -
  from assms obtain y1 y2 y3 y4 where Y: "Y = [y1, y2, y3, y4]"
    and y: "y1 \<in> set digits" "y2 \<in> set digits" "y3 \<in> set digits" "y4 \<in> set digits"
    unfolding well_formed_def using digit_string_4[of Y] by blast
  from assms obtain m1 m2 where M: "M = [m1, m2]" and mo: "m1 \<in> set digits" "m2 \<in> set digits"
    unfolding well_formed_def using digit_string_2[of M] by blast
  from assms obtain d1 d2 where D: "D = [d1, d2]" and d: "d1 \<in> set digits" "d2 \<in> set digits"
    unfolding well_formed_def using digit_string_2[of D] by blast
  from assms obtain h1 h2 where h: "h = [h1, h2]" and hh: "h1 \<in> set digits" "h2 \<in> set digits"
    unfolding well_formed_def using digit_string_2[of h] by blast
  from assms obtain n1 n2 where m: "m = [n1, n2]" and n: "n1 \<in> set digits" "n2 \<in> set digits"
    unfolding well_formed_def using digit_string_2[of m] by blast
  from assms obtain s1 s2 where s: "s = [s1, s2]" and ss: "s1 \<in> set digits" "s2 \<in> set digits"
    unfolding well_formed_def using digit_string_2[of s] by blast
  from assms obtain f1 f2 f3 where f: "f = [f1, f2, f3]"
    and ff: "f1 \<in> set digits" "f2 \<in> set digits" "f3 \<in> set digits"
    unfolding well_formed_def using digit_string_3[of f] by blast
  note ne = digit_not_sep(2)[OF y(1)] digit_not_sep(2)[OF y(2)] digit_not_sep(2)[OF y(3)]
    digit_not_sep(2)[OF y(4)] digit_not_sep(2)[OF mo(1)] digit_not_sep(2)[OF mo(2)]
    digit_not_sep(2)[OF d(1)] digit_not_sep(2)[OF d(2)] digit_not_sep(2)[OF hh(1)]
    digit_not_sep(2)[OF hh(2)] digit_not_sep(2)[OF n(1)] digit_not_sep(2)[OF n(2)]
    digit_not_sep(2)[OF ss(1)] digit_not_sep(2)[OF ss(2)] digit_not_sep(2)[OF ff(1)]
    digit_not_sep(2)[OF ff(2)] digit_not_sep(2)[OF ff(3)]
  note sp = digit_not_sep(4)[OF n(1)] digit_not_sep(4)[OF ss(1)]
  show ?thesis
    unfolding stamp_def Y M D h m s f
    using ne sp ne[symmetric] sp[symmetric]
    by simp
qed

lemma stamp_no_delimiter:
  assumes "well_formed Y M D h m s f"
  shows "\<not> contains '': '' (stamp Y M D h m s f @ '':'')"
proof -
  from assms obtain y1 y2 y3 y4 where Y: "Y = [y1, y2, y3, y4]"
    and y: "y1 \<in> set digits" "y2 \<in> set digits" "y3 \<in> set digits" "y4 \<in> set digits"
    unfolding well_formed_def using digit_string_4[of Y] by blast
  from assms obtain m1 m2 where M: "M = [m1, m2]" and mo: "m1 \<in> set digits" "m2 \<in> set digits"
    unfolding well_formed_def using digit_string_2[of M] by blast
  from assms obtain d1 d2 where D: "D = [d1, d2]" and d: "d1 \<in> set digits" "d2 \<in> set digits"
    unfolding well_formed_def using digit_string_2[of D] by blast
  from assms obtain h1 h2 where h: "h = [h1, h2]" and hh: "h1 \<in> set digits" "h2 \<in> set digits"
    unfolding well_formed_def using digit_string_2[of h] by blast
  from assms obtain n1 n2 where m: "m = [n1, n2]" and n: "n1 \<in> set digits" "n2 \<in> set digits"
    unfolding well_formed_def using digit_string_2[of m] by blast
  from assms obtain s1 s2 where s: "s = [s1, s2]" and ss: "s1 \<in> set digits" "s2 \<in> set digits"
    unfolding well_formed_def using digit_string_2[of s] by blast
  from assms obtain f1 f2 f3 where f: "f = [f1, f2, f3]"
    and ff: "f1 \<in> set digits" "f2 \<in> set digits" "f3 \<in> set digits"
    unfolding well_formed_def using digit_string_3[of f] by blast
  note ne = digit_not_sep(2)[OF y(1)] digit_not_sep(2)[OF y(2)] digit_not_sep(2)[OF y(3)]
    digit_not_sep(2)[OF y(4)] digit_not_sep(2)[OF mo(1)] digit_not_sep(2)[OF mo(2)]
    digit_not_sep(2)[OF d(1)] digit_not_sep(2)[OF d(2)] digit_not_sep(2)[OF hh(1)]
    digit_not_sep(2)[OF hh(2)] digit_not_sep(2)[OF n(1)] digit_not_sep(2)[OF n(2)]
    digit_not_sep(2)[OF ss(1)] digit_not_sep(2)[OF ss(2)] digit_not_sep(2)[OF ff(1)]
    digit_not_sep(2)[OF ff(2)] digit_not_sep(2)[OF ff(3)]
  note sp = digit_not_sep(4)[OF n(1)] digit_not_sep(4)[OF ss(1)]
  show ?thesis
    unfolding stamp_def Y M D h m s f
    using ne sp ne[symmetric] sp[symmetric]
    by simp
qed

lemma parse_log_line_well_formed:
  assumes "well_formed Y M D h m s f"
  shows "parse_log_line (stamp Y M D h m s f @ '': '' @ msg) =
           (Some (stamp_value Y M D h m s f), Some msg)"
  unfolding parse_log_line_def split_stamp[OF assms]
  by (simp add: strptime_well_formed[OF assms] join_split)

lemma findall_first:
  "(case findall r s of [] \<Rightarrow> None | m # _ \<Rightarrow> Some m) = map_option fst (first_match r s)"
proof (induction s)
  case Nil
  show ?case by (subst findall.simps) (auto split: option.splits)
next
  case (Cons c s)
  show ?case
  proof (cases "re_match r (c # s)")
    case None
    then show ?thesis using Cons by (simp add: findall_nomatch_Cons)
  next
    case (Some m)
    then show ?thesis by (subst findall.simps) (auto split: prod.splits)
  qed
qed

lemma first_match_SomeD:
  "first_match r s = Some m \<Longrightarrow> \<exists>pre t. s = pre @ t \<and> re_match r t = Some m"
proof (induction s)
  case Nil
  then show ?case by auto
next
  case (Cons c s)
  show ?case
  proof (cases "re_match r (c # s)")
    case None
    then have "first_match r s = Some m" using Cons.prems by simp
    then obtain pre t where "s = pre @ t" "re_match r t = Some m" using Cons.IH by blast
    then have "c # s = (c # pre) @ t \<and> re_match r t = Some m" by simp
    then show ?thesis by blast
  next
    case (Some m')
    then have "c # s = [] @ (c # s) \<and> re_match r (c # s) = Some m" using Cons.prems by simp
    then show ?thesis by blast
  qed
qed

lemma first_match_exists:
  "re_match r t = Some m \<Longrightarrow> first_match r (pre @ t) \<noteq> None"
proof (induction pre)
  case Nil
  then show ?case by (cases t) auto
next
  case (Cons c pre)
  then show ?case by (auto split: option.splits)
qed

lemma not_digit_CP: "\<not> is_digit CHR ''C''" "\<not> is_digit CHR ''P''" "\<not> is_digit CHR ''N''" "\<not> is_digit CHR ''F''"
  by (simp_all add: is_digit_def digits_def)

lemma takeWhile_digits_stop:
  "\<forall>x \<in> set d. is_digit x \<Longrightarrow> \<not> is_digit c \<Longrightarrow> takeWhile is_digit (d @ c # t) = d"
  by (simp add: takeWhile_append2)

lemma dropWhile_digits_stop:
  "\<forall>x \<in> set d. is_digit x \<Longrightarrow> \<not> is_digit c \<Longrightarrow> dropWhile is_digit (d @ c # t) = c # t"
  by (simp add: dropWhile_append2)

lemma strike_match_intro:
  assumes "code_parts d1 c d2 g suf"
  shows "re_match strike_re (''BANKNIFTY'' @ d1 @ [c] @ d2 @ g @ suf @ rest) =
           Some ([[last g], suf], rest)"
proof -
  have d1: "d1 \<noteq> []" "\<forall>x \<in> set d1. is_digit x" and c: "c = CHR ''N'' \<or> c = CHR ''F''"
    and dg: "\<forall>x \<in> set (d2 @ g). is_digit x" "d2 \<noteq> []" "g \<noteq> []"
    and suf: "suf = ''CE'' \<or> suf = ''PE''"
    using assms by (auto simp: code_parts_def)
  have nc: "\<not> is_digit c" using c not_digit_CP by auto
  obtain a where sufa: "suf @ rest = a # CHR ''E'' # rest" "\<not> is_digit a" "a = CHR ''C'' \<or> a = CHR ''P''"
    using suf not_digit_CP by auto
  have t1: "takeWhile is_digit (d1 @ c # d2 @ g @ suf @ rest) = d1"
    by (rule takeWhile_digits_stop[OF d1(2) nc])
  have t2: "dropWhile is_digit (d1 @ c # d2 @ g @ suf @ rest) = c # d2 @ g @ suf @ rest"
    by (rule dropWhile_digits_stop[OF d1(2) nc])
  have t3: "takeWhile is_digit ((d2 @ g) @ suf @ rest) = d2 @ g"
    unfolding sufa(1) by (rule takeWhile_digits_stop[OF dg(1) sufa(2)])
  have t4: "dropWhile is_digit ((d2 @ g) @ suf @ rest) = suf @ rest"
    unfolding sufa(1) by (rule dropWhile_digits_stop[OF dg(1) sufa(2)])
  have len: "2 \<le> length (d2 @ g)"
    using dg(2,3) by (cases d2; cases g) auto
  have m: "matches suffix_re (suf @ rest) = [([suf], rest)]"
    using suf by (auto simp: matches_suffix_re)
  have b: "re_match body_re (d2 @ g @ suf @ rest) = Some ([[last g], suf], rest)"
    using t3 t4 len m dg(3) by (simp add: re_match_body)
  show ?thesis
    using t1 t2 d1(1) c b by (auto simp: re_match_strike)
qed

lemma strike_match_elim:
  assumes "re_match strike_re s = Some (gs, rest)"
  shows "\<exists>d1 c d2 g suf. s = ''BANKNIFTY'' @ d1 @ [c] @ d2 @ [g] @ suf @ rest \<and>
           code_parts d1 c d2 [g] suf \<and> gs = [[g], suf]"
proof -
  let ?w = "drop 9 s"
  let ?d1 = "takeWhile is_digit ?w"
  from assms have p: "prefix ''BANKNIFTY'' s" and d1: "?d1 \<noteq> []"
    by (auto simp: re_match_strike split: if_splits)
  from assms p d1 obtain c v where cv: "dropWhile is_digit ?w = c # v"
    and c: "c \<in> set ''NF''" and b: "re_match body_re v = Some (gs, rest)"
    by (auto simp: re_match_strike split: if_splits list.splits)
  let ?tw = "takeWhile is_digit v"
  from b have n: "2 \<le> length ?tw"
    by (auto simp: re_match_body split: if_splits)
  from b n obtain g2 where m: "matches suffix_re (dropWhile is_digit v) \<noteq> []"
    and gs: "gs = [last ?tw] # g2"
    and hd: "hd (matches suffix_re (dropWhile is_digit v)) = (g2, rest)"
    by (auto simp: re_match_body split: if_splits list.splits)
  from m hd obtain suf where suf: "suf = ''CE'' \<or> suf = ''PE''" and g2: "g2 = [suf]"
    and dw: "dropWhile is_digit v = suf @ rest"
    by (auto simp: matches_suffix_re prefix_def split: if_splits)
  have s: "s = ''BANKNIFTY'' @ ?w" using p by (auto simp: prefix_def)
  have w: "?w = ?d1 @ c # v" using cv by (metis takeWhile_dropWhile_id)
  have tw: "?tw \<noteq> []" using n by auto
  have v: "v = butlast ?tw @ [last ?tw] @ suf @ rest"
    using dw tw by (metis append_butlast_last_id append.assoc takeWhile_dropWhile_id)
  have bl: "butlast ?tw \<noteq> []"
  proof -
    have "length (butlast ?tw) = length ?tw - 1" by simp
    then have "0 < length (butlast ?tw)" using n by linarith
    then show ?thesis by (metis length_greater_0_conv)
  qed
  have dig: "\<forall>x \<in> set ?tw. is_digit x" by (auto dest: set_takeWhileD)
  have "\<forall>x \<in> set (butlast ?tw). is_digit x" using dig by (auto dest: in_set_butlastD)
  moreover have "is_digit (last ?tw)" using dig tw by simp
  moreover have "\<forall>x \<in> set ?d1. is_digit x" by (auto dest: set_takeWhileD)
  ultimately have cp: "code_parts ?d1 c (butlast ?tw) [last ?tw] suf"
    using d1 c bl suf by (auto simp: code_parts_def)
  have "s = ''BANKNIFTY'' @ ?d1 @ [c] @ butlast ?tw @ [last ?tw] @ suf @ rest"
    using s w v by (metis append_Cons append_Nil)
  then show ?thesis using cp gs g2 by blast
qed

lemma oi_occurrences_digits:
  "v \<in> set (oi_occurrences s) \<Longrightarrow> v \<noteq> [] \<and> (\<forall>c \<in> set v. is_digit c)"
  by (induction s) (auto split: if_splits dest: set_takeWhileD)

lemma extract_oi_data_eq:
  "extract_oi_data message =
     (if contains ''ATM CE OI:'' message
      then (case oi_occurrences message of
              v0 # v1 # _ \<Rightarrow>
                if length v0 \<le> max_str_digits \<and> length v1 \<le> max_str_digits
                then Inr (Some (int (digits_val v0)), Some (int (digits_val v1)))
                else Inl ValueError
            | _ \<Rightarrow> Inr (None, None))
      else Inr (None, None))"
proof (cases "oi_occurrences message")
  case Nil
  then show ?thesis by (simp add: extract_oi_data_def findall_oi)
next
  case (Cons v0 vs)
  note c0 = Cons
  show ?thesis
  proof (cases vs)
    case Nil
    then show ?thesis using c0 by (simp add: extract_oi_data_def findall_oi)
  next
    case (Cons v1 ws)
    have "v0 \<in> set (oi_occurrences message)" "v1 \<in> set (oi_occurrences message)"
      using c0 Cons by simp_all
    then have d: "v0 \<noteq> []" "\<forall>c \<in> set v0. is_digit c" "v1 \<noteq> []" "\<forall>c \<in> set v1. is_digit c"
      using oi_occurrences_digits by blast+
    have i0: "py_int v0 = (if length v0 \<le> max_str_digits then Inr (int (digits_val v0))
                           else Inl ValueError)"
      using py_int_digits[OF d(1,2)] py_int_long[OF d(2)] by simp
    have i1: "py_int v1 = (if length v1 \<le> max_str_digits then Inr (int (digits_val v1))
                           else Inl ValueError)"
      using py_int_digits[OF d(3,4)] py_int_long[OF d(4)] by simp
    show ?thesis using c0 Cons by (simp add: extract_oi_data_def findall_oi i0 i1)
  qed
qed

lemma parse_log_line_shape:
  "parse_log_line line = (None, None) \<or> (\<exists>t m. parse_log_line line = (Some t, Some m))"
  by (auto simp: parse_log_line_def Let_def split: list.splits sum.splits)

lemma strike_groups:
  "first_match strike_re s = Some (gs, rest) \<Longrightarrow> \<exists>g suf. gs = [[g], suf] \<and> is_digit g"
  by (drule first_match_SomeD) (auto dest!: strike_match_elim simp: code_parts_def)

lemma extract_strike_data_eq:
  "extract_strike_data message =
     (if contains ''ATM strikes:'' message
      then map_option (\<lambda>(gs, rest). gs ! 0) (first_match strike_re message) else None)"
proof -
  have "(case findall strike_re message of [] \<Rightarrow> None | m # _ \<Rightarrow> Some (m ! 0)) =
        map_option (\<lambda>m. m ! 0) (case findall strike_re message of [] \<Rightarrow> None | m # _ \<Rightarrow> Some m)"
    by (simp split: list.splits)
  then show ?thesis
    unfolding extract_strike_data_def findall_first
    by (simp add: option.map_comp comp_def split_def)
qed

lemma extract_strike_nonempty: "extract_strike_data message = Some s \<Longrightarrow> s \<noteq> []"
  by (auto simp: extract_strike_data_eq split: if_splits dest!: strike_groups)

lemma process_lines_step:
  "process_lines (line # lines) data =
     (case parse_log_line line of
        (Some t, Some m) \<Rightarrow>
          (case extract_oi_data m of
             Inl e \<Rightarrow> Inl e
           | Inr oi \<Rightarrow> process_lines lines (data @ line_rows line))
      | _ \<Rightarrow> process_lines lines data)"
  using parse_log_line_shape[of line]
proof
  assume "parse_log_line line = (None, None)"
  then show ?thesis by simp
next
  assume "\<exists>t m. parse_log_line line = (Some t, Some m)"
  then obtain t m where p: "parse_log_line line = (Some t, Some m)" by blast
  show ?thesis
  proof (cases "extract_strike_data m")
    case None
    then show ?thesis using p
      by (simp add: line_rows_def extract_oi_data_eq split: list.splits)
  next
    case (Some s)
    then have "s \<noteq> []" by (rule extract_strike_nonempty)
    then show ?thesis using p Some
      by (simp add: line_rows_def extract_oi_data_eq split: list.splits)
  qed
qed

lemma line_rows_absent: "parse_log_line line = (None, None) \<Longrightarrow> line_rows line = []"
  by (simp add: line_rows_def)

lemma oi_occurrences_suffix: "set (oi_occurrences b) \<subseteq> set (oi_occurrences (a @ b))"
  by (induction a) auto

lemma message_suffix:
  assumes "parse_log_line line = (Some t, Some m)"
  shows "\<exists>a. line = a @ m"
proof -
  obtain ts rest where s: "py_split '': '' line = ts # rest"
    using py_split_nonempty[of "'': ''" line] by (cases "py_split '': '' line") auto
  have m: "m = py_join '': '' rest"
    using assms s by (simp add: parse_log_line_def split: sum.splits)
  have j: "py_join '': '' (ts # rest) = line" using join_split[of "'': ''" line] s by simp
  show ?thesis
  proof (cases rest)
    case Nil
    then have "line = line @ m" using m by simp
    then show ?thesis ..
  next
    case (Cons r rs)
    then have "line = (ts @ '': '') @ m" using j m by simp
    then show ?thesis ..
  qed
qed

lemma short_runs_extract:
  assumes "short_runs line" "parse_log_line line = (Some t, Some m)"
  shows "\<exists>oi. extract_oi_data m = Inr oi"
proof -
  obtain a where "line = a @ m" using message_suffix[OF assms(2)] by blast
  then have "set (oi_occurrences m) \<subseteq> set (oi_occurrences line)"
    using oi_occurrences_suffix by simp
  then have "\<forall>v \<in> set (oi_occurrences m). length v \<le> max_str_digits"
    using assms(1) by (auto simp: short_runs_def)
  then show ?thesis
    by (auto simp: extract_oi_data_eq split: list.splits)
qed

lemma process_lines_eq:
  "\<forall>line \<in> set lines. short_runs line \<Longrightarrow>
   process_lines lines data = Inr (data @ concat (map line_rows lines))"
proof (induction lines arbitrary: data)
  case Nil
  then show ?case by simp
next
  case (Cons line lines)
  have ih: "process_lines lines d = Inr (d @ concat (map line_rows lines))" for d
    using Cons by simp
  have sr: "short_runs line" using Cons.prems by simp
  show ?case
    using parse_log_line_shape[of line]
  proof
    assume "parse_log_line line = (None, None)"
    then show ?thesis unfolding process_lines_step ih by (simp add: line_rows_absent)
  next
    assume "\<exists>t m. parse_log_line line = (Some t, Some m)"
    then obtain t m where p: "parse_log_line line = (Some t, Some m)" by blast
    obtain oi where "extract_oi_data m = Inr oi" using short_runs_extract[OF sr p] by blast
    then show ?thesis unfolding process_lines_step ih using p by simp
  qed
qed

lemma rows_difference:
  "process_lines lines data = Inr rows \<Longrightarrow>
   \<forall>t ce pe d. OIRecord t ce pe d \<in> set data \<longrightarrow> d = ce - pe \<Longrightarrow>
   OIRecord t ce pe d \<in> set rows \<Longrightarrow> d = ce - pe"
proof (induction lines arbitrary: data)
  case Nil
  then show ?case by simp
next
  case (Cons line lines)
  have l: "\<forall>t ce pe d. OIRecord t ce pe d \<in> set (line_rows line) \<longrightarrow> d = ce - pe"
    by (auto simp: line_rows_def split: prod.splits option.splits list.splits if_splits)
  have "process_lines lines data = Inr rows \<or>
        process_lines lines (data @ line_rows line) = Inr rows"
    using Cons.prems(1) unfolding process_lines_step
    by (auto split: prod.splits option.splits sum.splits)
  then show ?case
  proof
    assume "process_lines lines data = Inr rows"
    then show ?thesis using Cons.IH Cons.prems(2,3) by blast
  next
    assume a: "process_lines lines (data @ line_rows line) = Inr rows"
    have "\<forall>t ce pe d. OIRecord t ce pe d \<in> set (data @ line_rows line) \<longrightarrow> d = ce - pe"
      using Cons.prems(2) l by auto
    then show ?thesis using Cons.IH[OF a] Cons.prems(3) by blast
  qed
qed

subsection \<open>Lines, absent lines and the order of the rows\<close>

lemma process_log_data_eq:
  "\<forall>line \<in> set (py_split [CHR 0x0A] text). short_runs line \<Longrightarrow>
   process_log_data text = Inr (concat (map line_rows (py_split [CHR 0x0A] text)))"
  by (simp add: process_log_data_def process_lines_eq)

lemma process_lines_skip:
  "parse_log_line line = (None, None) \<Longrightarrow>
   process_lines (before @ line # after) data = process_lines (before @ after) data"
proof (induction before arbitrary: data)
  case Nil
  then show ?case by simp
next
  case (Cons x before)
  have ih: "process_lines (before @ line # after) d = process_lines (before @ after) d" for d
    using Cons by simp
  show ?case
    unfolding append_Cons process_lines_step[of x] ih ..
qed

lemma contains_iff: "contains sub s \<longleftrightarrow> (\<exists>pre post. s = pre @ sub @ post)"
proof (induction s)
  case Nil
  then show ?case by auto
next
  case (Cons c s)
  show ?case
  proof
    assume "contains sub (c # s)"
    then consider "prefix sub (c # s)" | "contains sub s" by auto
    then show "\<exists>pre post. c # s = pre @ sub @ post"
    proof cases
      case 1
      then obtain post where "c # s = [] @ sub @ post" by (auto simp: prefix_def)
      then show ?thesis by blast
    next
      case 2
      then obtain pre post where "s = pre @ sub @ post" using Cons by blast
      then have "c # s = (c # pre) @ sub @ post" by simp
      then show ?thesis by blast
    qed
  next
    assume "\<exists>pre post. c # s = pre @ sub @ post"
    then obtain pre post where e: "c # s = pre @ sub @ post" by blast
    show "contains sub (c # s)"
    proof (cases pre)
      case Nil
      then have "prefix sub (c # s)" using e by (auto simp: prefix_def)
      then show ?thesis by simp
    next
      case (Cons x pre')
      then have "s = pre' @ sub @ post" using e by simp
      then have "contains sub s" using Cons.IH by blast
      then show ?thesis by simp
    qed
  qed
qed

lemma py_split_no_sep:
  "\<not> contains sep s \<Longrightarrow> py_split sep s = [s]"
proof (induction s)
  case Nil
  then show ?case by simp
next
  case (Cons c s)
  then have "\<not> prefix sep (c # s)" "\<not> contains sep s" by auto
  then show ?case using Cons.IH by simp
qed

lemma strptime_no_match: "re_match timestamp_re s = None \<Longrightarrow> strptime s = Inl ValueError"
  by (simp add: strptime_def)

lemma parse_no_delimiter:
  "\<not> contains '': '' line \<Longrightarrow>
   parse_log_line line =
     (case strptime line of Inr t \<Rightarrow> (Some t, Some []) | Inl e \<Rightarrow> (None, None))"
  by (simp add: parse_log_line_def py_split_no_sep split: sum.splits)

lemma py_split_first:
  "\<not> contains '': '' (a @ '':'') \<Longrightarrow> py_split '': '' (a @ '': '' @ b) = a # py_split '': '' b"
proof (induction a)
  case Nil
  then show ?case by simp
next
  case (Cons x a)
  have n: "\<not> contains '': '' (a @ '':'')" using Cons.prems by simp
  have p: "\<not> prefix '': '' (x # a @ '':'')" using Cons.prems by simp
  have "\<not> prefix '': '' (x # a @ '': '' @ b)"
    using p by (cases a) auto
  then show ?case using Cons.IH[OF n] by simp
qed

lemma parse_with_delimiter:
  "\<not> contains '': '' (a @ '':'') \<Longrightarrow>
   parse_log_line (a @ '': '' @ b) =
     (case strptime a of Inr t \<Rightarrow> (Some t, Some b) | Inl e \<Rightarrow> (None, None))"
proof -
  assume n: "\<not> contains '': '' (a @ '':'')"
  have s: "py_split '': '' (a @ '': '' @ b) = a # py_split '': '' b"
    by (rule py_split_first[OF n])
  show ?thesis
    unfolding parse_log_line_def s by (simp add: join_split split: sum.splits)
qed

lemma extract_strike_exists:
  assumes "contains ''ATM strikes:'' msg"
    and "msg = pre @ ''BANKNIFTY'' @ d1 @ [c] @ d2 @ g @ suf @ post"
    and "code_parts d1 c d2 g suf"
  shows "\<exists>k. is_digit k \<and> extract_strike_data msg = Some [k]"
proof -
  have "re_match strike_re (''BANKNIFTY'' @ d1 @ [c] @ d2 @ g @ suf @ post) =
          Some ([[last g], suf], post)"
    by (rule strike_match_intro[OF assms(3)])
  then have "first_match strike_re msg \<noteq> None"
    unfolding assms(2) by (rule first_match_exists)
  then obtain gs rest where fm: "first_match strike_re msg = Some (gs, rest)" by auto
  then obtain k suf' where "gs = [[k], suf']" "is_digit k" using strike_groups by blast
  then show ?thesis using fm assms(1) by (simp add: extract_strike_data_eq)
qed

lemma matches_format_iff:
  "matches_format s \<longleftrightarrow>
     (\<exists>Y M D h m sec f. s = stamp Y M D h m sec f \<and> well_formed Y M D h m sec f)"
proof
  assume "matches_format s"
  then show "\<exists>Y M D h m sec f. s = stamp Y M D h m sec f \<and> well_formed Y M D h m sec f"
    unfolding matches_format_def Let_def by blast
next
  assume "\<exists>Y M D h m sec f. s = stamp Y M D h m sec f \<and> well_formed Y M D h m sec f"
  then obtain Y M D h m sec f where s: "s = stamp Y M D h m sec f"
    and w: "well_formed Y M D h m sec f"
    by blast
  have l: "length Y = 4" "length M = 2" "length D = 2" "length h = 2" "length m = 2"
    "length sec = 2"
    using w by (simp_all add: well_formed_def digit_string_def)
  have "take 4 s = Y" "take 2 (drop 5 s) = M" "take 2 (drop 8 s) = D" "take 2 (drop 11 s) = h"
    "take 2 (drop 14 s) = m" "take 2 (drop 17 s) = sec" "drop 20 s = f"
    unfolding s stamp_def using l by simp_all
  then show "matches_format s"
    unfolding matches_format_def Let_def using s w by simp
qed

lemma long_run_facts:
  "length long_run = 4301" "long_run \<noteq> []" "\<forall>c \<in> set long_run. is_digit c"
  "CHR ''O'' \<notin> set long_run" "CHR 0x0A \<notin> set long_run"
  by (simp_all add: long_run_def is_digit_def digits_def)

lemma oi_occurrences_hit:
  assumes "d \<noteq> []" "\<forall>c \<in> set d. is_digit c" "\<not> is_digit x"
  shows "oi_occurrences (''OI:'' @ d @ x # rest) = d # oi_occurrences (x # rest)"
proof -
  have t: "takeWhile is_digit (d @ x # rest) = d"
    by (rule takeWhile_digits_stop[OF assms(2,3)])
  have "CHR ''O'' \<notin> set (''I:'' @ d)" using assms(2) is_digit_not_O by auto
  then have "oi_occurrences ((''I:'' @ d) @ x # rest) = oi_occurrences (x # rest)"
    by (rule oi_occurrences_skip)
  then show ?thesis using t assms(1) by simp
qed

lemma extract_oi_long:
  assumes "contains ''ATM CE OI:'' msg" "oi_occurrences msg = v0 # v1 # vs"
    and "max_str_digits < length v0"
  shows "extract_oi_data msg = Inl ValueError"
  using assms by (simp add: extract_oi_data_eq)

lemma contains_single: "contains [c] s \<longleftrightarrow> c \<in> set s"
  by (induction s) auto

lemma process_lines_raise:
  "parse_log_line line = (Some t, Some m) \<Longrightarrow> extract_oi_data m = Inl e \<Longrightarrow>
   process_lines (line # lines) data = Inl e"
  by simp

lemma parse_absent_delimiter:
  assumes "\<not> contains '': '' (a @ '':'')"
  shows "(parse_log_line (a @ '': '' @ b) = (None, None)) = (\<not> admitted a)"
proof (cases "strptime a")
  case (Inl e)
  then have "\<not> admitted a" using strptime_iff[of a] by auto
  then show ?thesis using parse_with_delimiter[OF assms, of b] Inl by simp
next
  case (Inr t)
  then have "admitted a" using strptime_iff[of a] by auto
  then show ?thesis using parse_with_delimiter[OF assms, of b] Inr by simp
qed

lemma parse_absent_no_delimiter:
  assumes "\<not> contains '': '' line"
  shows "(parse_log_line line = (None, None)) = (\<not> admitted line)"
proof (cases "strptime line")
  case (Inl e)
  then have "\<not> admitted line" using strptime_iff[of line] by auto
  then show ?thesis using parse_no_delimiter[OF assms] Inl by simp
next
  case (Inr t)
  then have "admitted line" using strptime_iff[of line] by auto
  then show ?thesis using parse_no_delimiter[OF assms] Inr by simp
qed

lemma all_absent:
  "\<forall>l \<in> set lines. parse_log_line l = (None, None) \<Longrightarrow> process_lines lines data = Inr data"
  by (induction lines) auto

section \<open>Evaluation on example lines\<close>

lemmas wf_eval = well_formed_def digit_string_def is_digit_def digits_def valid_datetime_def
  stamp_value_def digits_val_def digit_val_def days_in_month_def is_leap_def

lemmas strike_eval = extract_strike_data_eq re_match_strike re_match_body matches_suffix_re
  is_digit_def digits_def

lemmas oi_eval = is_digit_def digits_def digits_val_def digit_val_def

lemma wf_456: "well_formed ''2024'' ''01'' ''15'' ''09'' ''30'' ''00'' ''456''"
  by (simp add: wf_eval)

lemma wf_123: "well_formed ''2024'' ''01'' ''15'' ''09'' ''30'' ''00'' ''123''"
  by (simp add: wf_eval)

lemma stamp_123: "stamp ''2024'' ''01'' ''15'' ''09'' ''30'' ''00'' ''123'' = ''2024-01-15 09:30:00,123''"
  by (simp add: stamp_def)

lemma value_123:
  "stamp_value ''2024'' ''01'' ''15'' ''09'' ''30'' ''00'' ''123'' =
     \<lparr>year = 2024, month = 1, day = 15, hour = 9, minute = 30, second = 0, microsecond = 123000\<rparr>"
  by (simp add: stamp_value_def digits_val_def digit_val_def)

lemma strptime_123:
  "strptime ''2024-01-15 09:30:00,123'' =
     Inr \<lparr>year = 2024, month = 1, day = 15, hour = 9, minute = 30, second = 0, microsecond = 123000\<rparr>"
  using strptime_well_formed[OF wf_123] by (simp only: stamp_123 value_123)

lemma strptime_bad: "strptime ''bad stamp'' = Inl ValueError"
  by (rule strptime_no_match)
     (simp add: re_match_def timestamp_re_eq year_re_def digits_def)

lemma strptime_garbage: "strptime ''garbage line with no timestamp'' = Inl ValueError"
  by (rule strptime_no_match)
     (simp add: re_match_def timestamp_re_eq year_re_def digits_def)

lemma parse_example_2:
  "parse_log_line ''2024-01-15 09:30:00,456: ATM strikes: BANKNIFTY24JAN45000CE'' =
     (Some \<lparr>year = 2024, month = 1, day = 15, hour = 9, minute = 30, second = 0,
            microsecond = 456000\<rparr>, Some ''ATM strikes: BANKNIFTY24JAN45000CE'')"
  using parse_log_line_well_formed[OF wf_456, of "''ATM strikes: BANKNIFTY24JAN45000CE''"]
  by (simp add: stamp_def stamp_value_def digits_val_def digit_val_def)

lemma strike_example_2: "extract_strike_data ''ATM strikes: BANKNIFTY24JAN45000CE'' = None"
  by (simp add: strike_eval)

lemma rows_example_2:
  "process_log_data ''2024-01-15 09:30:00,456: ATM strikes: BANKNIFTY24JAN45000CE'' = Inr []"
  by (simp add: process_log_data_def process_lines_step line_rows_def parse_example_2
      strike_example_2 extract_oi_data_eq del: process_lines.simps(2))

lemma parse_example_1:
  "parse_log_line ''2024-01-15 09:30:00,123: ATM CE OI:1500000 PE OI:1200000'' =
     (Some \<lparr>year = 2024, month = 1, day = 15, hour = 9, minute = 30, second = 0,
            microsecond = 123000\<rparr>, Some ''ATM CE OI:1500000 PE OI:1200000'')"
  using parse_log_line_well_formed[OF wf_123, of "''ATM CE OI:1500000 PE OI:1200000''"]
  by (simp add: stamp_def stamp_value_def digits_val_def digit_val_def)

lemma rows_example_1:
  "process_log_data ''2024-01-15 09:30:00,123: ATM CE OI:1500000 PE OI:1200000'' =
     Inr [OIRecord \<lparr>year = 2024, month = 1, day = 15, hour = 9, minute = 30, second = 0,
                    microsecond = 123000\<rparr> 1500000 1200000 300000]"
  by (simp add: process_log_data_def process_lines_step line_rows_def parse_example_1
      extract_strike_data_eq extract_oi_data_eq max_str_digits_def oi_eval
      del: process_lines.simps(2))

lemma parse_example_neg:
  "parse_log_line ''2024-01-15 09:30:00,456: ATM CE OI:100 PE OI:250'' =
     (Some \<lparr>year = 2024, month = 1, day = 15, hour = 9, minute = 30, second = 0,
            microsecond = 456000\<rparr>, Some ''ATM CE OI:100 PE OI:250'')"
  using parse_log_line_well_formed[OF wf_456, of "''ATM CE OI:100 PE OI:250''"]
  by (simp add: stamp_def stamp_value_def digits_val_def digit_val_def)

lemma rows_example_neg:
  "process_log_data ''2024-01-15 09:30:00,456: ATM CE OI:100 PE OI:250'' =
     Inr [OIRecord \<lparr>year = 2024, month = 1, day = 15, hour = 9, minute = 30, second = 0,
                    microsecond = 456000\<rparr> 100 250 (- 150)]"
  by (simp add: process_log_data_def process_lines_step line_rows_def parse_example_neg
      extract_strike_data_eq extract_oi_data_eq max_str_digits_def oi_eval
      del: process_lines.simps(2))

lemma strike_eval_single: "extract_strike_data ''ATM strikes: BANKNIFTY24N0745000CE'' = Some ''0''"
  by (simp add: strike_eval)

lemma long_message:
  "contains ''ATM CE OI:'' (''ATM CE OI:'' @ long_run @ '' PE OI:2'')"
  "oi_occurrences (''ATM CE OI:'' @ long_run @ '' PE OI:2'') = [long_run, ''2'']"
  "extract_oi_data (''ATM CE OI:'' @ long_run @ '' PE OI:2'') = Inl ValueError"
proof -
  let ?msg = "''ATM CE OI:'' @ long_run @ '' PE OI:2''"
  show c: "contains ''ATM CE OI:'' ?msg" by simp
  have "oi_occurrences (''ATM CE '' @ ''OI:'' @ long_run @ CHR '' '' # ''PE OI:2'') =
        oi_occurrences (''OI:'' @ long_run @ CHR '' '' # ''PE OI:2'')"
    by (rule oi_occurrences_skip) simp
  also have "\<dots> = long_run # oi_occurrences (CHR '' '' # ''PE OI:2'')"
    by (rule oi_occurrences_hit[OF long_run_facts(2,3)]) (simp add: is_digit_def digits_def)
  also have "oi_occurrences (CHR '' '' # ''PE OI:2'') = [''2'']"
    by (simp add: is_digit_def digits_def)
  finally show o: "oi_occurrences ?msg = [long_run, ''2'']" by simp
  show "extract_oi_data ?msg = Inl ValueError"
    by (rule extract_oi_long[OF c o]) (simp add: long_run_facts max_str_digits_def)
qed

lemma long_line:
  "parse_log_line (''2024-01-15 09:30:00,123: ATM CE OI:'' @ long_run @ '' PE OI:2'') =
     (Some \<lparr>year = 2024, month = 1, day = 15, hour = 9, minute = 30, second = 0,
            microsecond = 123000\<rparr>, Some (''ATM CE OI:'' @ long_run @ '' PE OI:2''))"
  using parse_log_line_well_formed[OF wf_123, of "''ATM CE OI:'' @ long_run @ '' PE OI:2''"]
  by (simp add: stamp_def value_123)

lemma long_text:
  "process_log_data (''2024-01-15 09:30:00,123: ATM CE OI:'' @ long_run @ '' PE OI:2'') =
     Inl ValueError"
proof -
  let ?line = "''2024-01-15 09:30:00,123: ATM CE OI:'' @ long_run @ '' PE OI:2''"
  have "\<not> contains [CHR 0x0A] ?line"
    unfolding contains_single using long_run_facts(5) by simp
  then have sp: "py_split [CHR 0x0A] ?line = [?line]" by (rule py_split_no_sep)
  show ?thesis
    unfolding process_log_data_def sp
    by (rule process_lines_raise[OF long_line long_message(3)])
qed

lemma parts_lenient: "admitted_parts ''2024'' ''1'' ''5'' '' '' ''9'' ''3'' ''0'' ''5''"
  by (simp add: admitted_parts_def digit_string_def digit_field_def is_digit_def digits_def
      digits_val_def digit_val_def days_in_month_def is_leap_def whitespace_def)

lemma strptime_lenient:
  "strptime ''2024-1-5 9:3:0,5'' =
     Inr \<lparr>year = 2024, month = 1, day = 5, hour = 9, minute = 3, second = 0,
          microsecond = 500000\<rparr>"
proof -
  have p: "pad_fraction ''5'' = ''500000''" by (simp add: pad_fraction_def numeral_eq_Suc)
  have s: "strip ''5'' = ''5''" by (simp add: strip_def int_whitespace_def)
  show ?thesis
    using strptime_parts[OF parts_lenient] unfolding p s
    by (simp add: digits_val_def digit_val_def)
qed

lemma parse_lenient:
  "parse_log_line ''2024-1-5 9:3:0,5: x'' =
     (Some \<lparr>year = 2024, month = 1, day = 5, hour = 9, minute = 3, second = 0,
            microsecond = 500000\<rparr>, Some ''x'')"
proof -
  have n: "\<not> contains '': '' (''2024-1-5 9:3:0,5'' @ '':'')" by simp
  show ?thesis using parse_with_delimiter[OF n, of "''x''"] by (simp add: strptime_lenient)
qed

lemma not_strict: "\<not> matches_format ''2024-1-5 9:3:0,5''"
  by (simp add: matches_format_def well_formed_def digit_string_def)

lemma parse_example_none: "parse_log_line ''2024-01-15 09:30:00,123'' =
     (Some \<lparr>year = 2024, month = 1, day = 15, hour = 9, minute = 30, second = 0,
            microsecond = 123000\<rparr>, Some [])"
proof -
  have c: "\<not> contains '': '' ''2024-01-15 09:30:00,123''" by simp
  show ?thesis using parse_no_delimiter[OF c] by (simp add: strptime_123)
qed

lemma both_message:
  "contains ''ATM strikes:'' (''ATM strikes: BANKNIFTY24N0745000CE ATM CE OI:'' @ long_run @ '' PE OI:2'')"
  "extract_strike_data (''ATM strikes: BANKNIFTY24N0745000CE ATM CE OI:'' @ long_run @ '' PE OI:2'') =
     Some ''0''"
  "contains ''ATM CE OI:'' (''ATM strikes: BANKNIFTY24N0745000CE ATM CE OI:'' @ long_run @ '' PE OI:2'')"
  "oi_occurrences (''ATM strikes: BANKNIFTY24N0745000CE ATM CE OI:'' @ long_run @ '' PE OI:2'') =
     [long_run, ''2'']"
  "extract_oi_data (''ATM strikes: BANKNIFTY24N0745000CE ATM CE OI:'' @ long_run @ '' PE OI:2'') =
     Inl ValueError"
proof -
  let ?msg = "''ATM strikes: BANKNIFTY24N0745000CE ATM CE OI:'' @ long_run @ '' PE OI:2''"
  show "contains ''ATM strikes:'' ?msg" by simp
  show "extract_strike_data ?msg = Some ''0''" by (simp add: strike_eval)
  show c: "contains ''ATM CE OI:'' ?msg" by simp
  have "oi_occurrences (''ATM strikes: BANKNIFTY24N0745000CE ATM CE '' @ ''OI:'' @ long_run @
          CHR '' '' # ''PE OI:2'') =
        oi_occurrences (''OI:'' @ long_run @ CHR '' '' # ''PE OI:2'')"
    by (rule oi_occurrences_skip) simp
  also have "\<dots> = long_run # oi_occurrences (CHR '' '' # ''PE OI:2'')"
    by (rule oi_occurrences_hit[OF long_run_facts(2,3)]) (simp add: is_digit_def digits_def)
  also have "oi_occurrences (CHR '' '' # ''PE OI:2'') = [''2'']"
    by (simp add: is_digit_def digits_def)
  finally show o: "oi_occurrences ?msg = [long_run, ''2'']" by simp
  show "extract_oi_data ?msg = Inl ValueError"
    by (rule extract_oi_long[OF c o]) (simp add: long_run_facts max_str_digits_def)
qed

lemma both_line:
  "parse_log_line (''2024-01-15 09:30:00,123: ATM strikes: BANKNIFTY24N0745000CE ATM CE OI:'' @
       long_run @ '' PE OI:2'') =
     (Some \<lparr>year = 2024, month = 1, day = 15, hour = 9, minute = 30, second = 0,
            microsecond = 123000\<rparr>,
      Some (''ATM strikes: BANKNIFTY24N0745000CE ATM CE OI:'' @ long_run @ '' PE OI:2''))"
  using parse_log_line_well_formed[OF wf_123,
      of "''ATM strikes: BANKNIFTY24N0745000CE ATM CE OI:'' @ long_run @ '' PE OI:2''"]
  by (simp add: stamp_def value_123)

section \<open>The claims\<close>

subsection \<open>C1: the strike example of the specification\<close>

text \<open>
  C1 as stated: the line
  \<^verbatim>\<open>2024-01-15 09:30:00,456: ATM strikes: BANKNIFTY24JAN45000CE\<close> yields exactly one
  StrikeRecord with timestamp 2024-01-15T09:30:00.456 and strike \<^verbatim>\<open>45000\<close>. The program
  does not produce this row.
\<close>

theorem strike_example_counterexample:
  "process_log_data ''2024-01-15 09:30:00,456: ATM strikes: BANKNIFTY24JAN45000CE'' \<noteq>
     Inr [StrikeRecord \<lparr>year = 2024, month = 1, day = 15, hour = 9, minute = 30, second = 0,
                        microsecond = 456000\<rparr> ''45000'']"
  by (simp add: rows_example_2)

text \<open>
  C1, amended: for that line the pipeline produces no row at all. The line parses, with
  the message \<^verbatim>\<open>ATM strikes: BANKNIFTY24JAN45000CE\<close>, but after \<^verbatim>\<open>BANKNIFTY24\<close> the pattern
  wants one letter \<^verbatim>\<open>N\<close> or \<^verbatim>\<open>F\<close> followed by a digit, and the text goes on with
  \<^verbatim>\<open>JAN\<close>; so the strike extractor returns nothing and the result is the empty series.
\<close>

theorem strike_example_no_row:
  "parse_log_line ''2024-01-15 09:30:00,456: ATM strikes: BANKNIFTY24JAN45000CE'' =
     (Some \<lparr>year = 2024, month = 1, day = 15, hour = 9, minute = 30, second = 0,
            microsecond = 456000\<rparr>, Some ''ATM strikes: BANKNIFTY24JAN45000CE'') \<and>
   extract_strike_data ''ATM strikes: BANKNIFTY24JAN45000CE'' = None \<and>
   process_log_data ''2024-01-15 09:30:00,456: ATM strikes: BANKNIFTY24JAN45000CE'' = Inr []"
  by (simp add: parse_example_2 strike_example_2 rows_example_2)

subsection \<open>C2: what the strike extractor returns\<close>

text \<open>
  C2 says that the strike extractor returns the full numeric group in front of \<^verbatim>\<open>CE\<close> or
  \<^verbatim>\<open>PE\<close> in the first instrument code, leading zeros kept. The program returns one digit
  only: in \<^verbatim>\<open>\d+(\d+)\<close> the repetition in front of the group takes every digit but the
  last. For \<^verbatim>\<open>BANKNIFTY24N0745000CE\<close> the result is \<^verbatim>\<open>0\<close>, neither \<^verbatim>\<open>45000\<close> nor
  \<^verbatim>\<open>0745000\<close>; with two codes in the message it is the last digit of the first.
\<close>

theorem strike_extractor_last_digit_only:
  "extract_strike_data ''ATM strikes: BANKNIFTY24N0745000CE'' = Some ''0'' \<and>
   extract_strike_data ''ATM strikes: BANKNIFTY24N0745125CE BANKNIFTY24N0745200PE'' = Some ''5''"
  by (simp add: strike_eval)

subsection \<open>C3: the open-interest example of the specification\<close>

text \<open>
  C3: the line \<^verbatim>\<open>2024-01-15 09:30:00,123: ATM CE OI:1500000 PE OI:1200000\<close> yields exactly
  one OIRecord, with timestamp 2024-01-15T09:30:00.123 (123000 microseconds), ce_oi
  1500000, pe_oi 1200000 and oi_difference 300000.
\<close>

theorem oi_example:
  "process_log_data ''2024-01-15 09:30:00,123: ATM CE OI:1500000 PE OI:1200000'' =
     Inr [OIRecord \<lparr>year = 2024, month = 1, day = 15, hour = 9, minute = 30, second = 0,
                    microsecond = 123000\<rparr> 1500000 1200000 300000]"
  by (rule rows_example_1)

subsection \<open>C4: the line parser on well-formed lines\<close>

text \<open>
  C4: for every well-formed timestamp \<^verbatim>\<open>YYYY-MM-DD HH:MM:SS,mmm\<close> and every message, the
  line parser applied to timestamp, \<^verbatim>\<open>": "\<close> and message returns the exact timestamp,
  the milliseconds as microseconds, and the exact message, whatever further \<^verbatim>\<open>": "\<close> it
  contains; when the delimiter ends the line the message is the empty string, not
  absent. The delimiter behind the timestamp is the first in the line: no \<^verbatim>\<open>": "\<close>
  starts inside the timestamp.
\<close>

theorem line_parser_well_formed:
  "well_formed Y M D h m s f \<Longrightarrow>
     parse_log_line (stamp Y M D h m s f @ '': '' @ msg) =
       (Some (stamp_value Y M D h m s f), Some msg) \<and>
     parse_log_line (stamp Y M D h m s f @ '': '') = (Some (stamp_value Y M D h m s f), Some []) \<and>
     \<not> contains '': '' (stamp Y M D h m s f @ '':'')"
  using parse_log_line_well_formed[of Y M D h m s f msg]
    parse_log_line_well_formed[of Y M D h m s f "[]"] stamp_no_delimiter[of Y M D h m s f]
  by simp

text \<open>The theorem at a line whose message contains the delimiter twice, and at an empty message.\<close>

theorem line_parser_well_formed_witness:
  "well_formed ''2024'' ''01'' ''15'' ''09'' ''30'' ''00'' ''123'' \<and>
   parse_log_line ''2024-01-15 09:30:00,123: OI: a: b'' =
     (Some \<lparr>year = 2024, month = 1, day = 15, hour = 9, minute = 30, second = 0,
            microsecond = 123000\<rparr>, Some ''OI: a: b'') \<and>
   parse_log_line ''2024-01-15 09:30:00,123: '' =
     (Some \<lparr>year = 2024, month = 1, day = 15, hour = 9, minute = 30, second = 0,
            microsecond = 123000\<rparr>, Some []) \<and>
   \<not> contains '': '' ''2024-01-15 09:30:00,123:''"
  using line_parser_well_formed[OF wf_123, of "''OI: a: b''"] wf_123
  by (simp add: stamp_123 value_123)

subsection \<open>C5: lines that do not parse\<close>

text \<open>
  C5 as stated fails in three places. A line without the delimiter \<^verbatim>\<open>": "\<close> is not
  absent when it is itself a timestamp: the parser never looks for the delimiter, it
  hands the text in front of the first \<^verbatim>\<open>": "\<close>, the whole line when there is none, to
  \<^verbatim>\<open>strptime\<close>. A timestamp candidate that is not of the shape
  \<^verbatim>\<open>YYYY-MM-DD HH:MM:SS,mmm\<close> is not absent when \<^verbatim>\<open>strptime\<close> admits it all the same:
  \<^verbatim>\<open>2024-1-5 9:3:0,5\<close> is read as 2024-01-05 09:03:00.500000. And an error does escape
  the pipeline: on a parsed line whose message has the marker \<^verbatim>\<open>ATM CE OI:\<close> and a run of
  4301 digits, \<^verbatim>\<open>int\<close> raises \<^verbatim>\<open>ValueError\<close> outside every \<^verbatim>\<open>try\<close>.
\<close>

theorem parse_failure_counterexample:
  "(\<not> contains '': '' ''2024-01-15 09:30:00,123'' \<and>
    parse_log_line ''2024-01-15 09:30:00,123'' =
      (Some \<lparr>year = 2024, month = 1, day = 15, hour = 9, minute = 30, second = 0,
             microsecond = 123000\<rparr>, Some [])) \<and>
   (\<not> matches_format ''2024-1-5 9:3:0,5'' \<and>
    parse_log_line ''2024-1-5 9:3:0,5: x'' =
      (Some \<lparr>year = 2024, month = 1, day = 5, hour = 9, minute = 3, second = 0,
             microsecond = 500000\<rparr>, Some ''x'')) \<and>
   process_log_data (''2024-01-15 09:30:00,123: ATM CE OI:'' @ long_run @ '' PE OI:2'') =
     Inl ValueError"
proof -
  have c: "\<not> contains '': '' ''2024-01-15 09:30:00,123''" by simp
  show ?thesis using c parse_example_none parse_lenient not_strict long_text by blast
qed

text \<open>
  C5, amended: the line parser returns absent exactly when the timestamp candidate, the
  text \<open>a\<close> in front of the first \<^verbatim>\<open>": "\<close> or the whole line when it has none, is not a
  timestamp that the format admits; the series builder leaves an absent line out and goes
  on with the lines before and after it; for a text all of whose lines have only
  digit runs of at most 4300 digits behind \<^verbatim>\<open>OI:\<close> it returns a list of rows and no
  error; and a text all of whose lines are absent gives the empty list.
\<close>

theorem parse_failure_skipped:
  "(\<not> contains '': '' (a @ '':'') \<longrightarrow>
      (parse_log_line (a @ '': '' @ b) = (None, None)) = (\<not> admitted a)) \<and>
   (\<not> contains '': '' line \<longrightarrow> (parse_log_line line = (None, None)) = (\<not> admitted line)) \<and>
   (parse_log_line line = (None, None) \<longrightarrow>
      process_lines (before @ line # after) data = process_lines (before @ after) data) \<and>
   ((\<forall>l \<in> set (py_split [CHR 0x0A] text). short_runs l) \<longrightarrow>
      (\<exists>rows. process_log_data text = Inr rows)) \<and>
   ((\<forall>l \<in> set (py_split [CHR 0x0A] text). parse_log_line l = (None, None)) \<longrightarrow>
      process_log_data text = Inr [])"
proof -
  have a: "\<not> contains '': '' (a @ '':'') \<longrightarrow>
      (parse_log_line (a @ '': '' @ b) = (None, None)) = (\<not> admitted a)"
    using parse_absent_delimiter by blast
  have b: "\<not> contains '': '' line \<longrightarrow> (parse_log_line line = (None, None)) = (\<not> admitted line)"
    using parse_absent_no_delimiter by blast
  have c: "parse_log_line line = (None, None) \<longrightarrow>
      process_lines (before @ line # after) data = process_lines (before @ after) data"
    using process_lines_skip by blast
  have d: "(\<forall>l \<in> set (py_split [CHR 0x0A] text). short_runs l) \<longrightarrow>
      (\<exists>rows. process_log_data text = Inr rows)"
    using process_log_data_eq by blast
  have e: "(\<forall>l \<in> set (py_split [CHR 0x0A] text). parse_log_line l = (None, None)) \<longrightarrow>
      process_log_data text = Inr []"
    unfolding process_log_data_def using all_absent by blast
  show ?thesis using a b c d e by blast
qed

text \<open>
  The theorem at a line with a delimiter and no timestamp, at a line without delimiter
  that does not parse, and at the text of that line with its newline.
\<close>

theorem parse_failure_skipped_witness:
  "(\<not> contains '': '' (''bad stamp'' @ '':'') \<and> \<not> admitted ''bad stamp'' \<and>
    parse_log_line (''bad stamp'' @ '': '' @ ''ATM CE OI:1 PE OI:2'') = (None, None)) \<and>
   (\<not> contains '': '' ''garbage line with no timestamp'' \<and>
    \<not> admitted ''garbage line with no timestamp'' \<and>
    parse_log_line ''garbage line with no timestamp'' = (None, None) \<and>
    process_lines ([''x''] @ ''garbage line with no timestamp'' # [''y'']) [] =
      process_lines ([''x''] @ [''y'']) []) \<and>
   (py_split [CHR 0x0A] (''garbage line with no timestamp'' @ [CHR 0x0A]) =
      [''garbage line with no timestamp'', []] \<and>
    short_runs ''garbage line with no timestamp'' \<and> short_runs [] \<and>
    parse_log_line [] = (None, None) \<and>
    process_log_data (''garbage line with no timestamp'' @ [CHR 0x0A]) = Inr [])"
proof -
  have g: "\<not> contains '': '' ''garbage line with no timestamp''" by simp
  have k: "\<not> contains '': '' (''bad stamp'' @ '':'')" by simp
  have pg: "parse_log_line ''garbage line with no timestamp'' = (None, None)"
    using parse_no_delimiter[OF g] by (simp add: strptime_garbage)
  have pk: "parse_log_line (''bad stamp'' @ '': '' @ ''ATM CE OI:1 PE OI:2'') = (None, None)"
    using parse_with_delimiter[OF k] by (simp add: strptime_bad)
  have pe: "parse_log_line [] = (None, None)"
    by (simp add: parse_log_line_def strptime_no_match re_match_def timestamp_re_eq year_re_def)
  have sp: "py_split [CHR 0x0A] (''garbage line with no timestamp'' @ [CHR 0x0A]) =
      [''garbage line with no timestamp'', []]"
    by simp
  have sr: "short_runs ''garbage line with no timestamp''" "short_runs []"
    by (simp_all add: short_runs_def)
  note t = parse_failure_skipped[of "''bad stamp''" "''ATM CE OI:1 PE OI:2''"
        "''garbage line with no timestamp''" "[''x'']" "[''y'']" "[]"
        "''garbage line with no timestamp'' @ [CHR 0x0A]"]
  have 1: "\<not> admitted ''bad stamp''" using t k pk by blast
  have 2: "\<not> admitted ''garbage line with no timestamp''" using t g pg by blast
  have 3: "process_lines ([''x''] @ ''garbage line with no timestamp'' # [''y'']) [] =
      process_lines ([''x''] @ [''y'']) []"
    using t pg by blast
  have "\<forall>l \<in> set (py_split [CHR 0x0A] (''garbage line with no timestamp'' @ [CHR 0x0A])).
          parse_log_line l = (None, None)"
    unfolding sp using pg pe by simp
  then have 4: "process_log_data (''garbage line with no timestamp'' @ [CHR 0x0A]) = Inr []"
    using t by blast
  show ?thesis using g k pg pk pe sp sr 1 2 3 4 by blast
qed

subsection \<open>C6: the open-interest extractor\<close>

text \<open>
  C6 says that for every message with the marker \<^verbatim>\<open>ATM CE OI:\<close> and at least two
  occurrences of \<^verbatim>\<open>OI:\<close> and digits, the value of the first digit run is ce_oi and the
  value of the second is pe_oi. The program does so only while \<^verbatim>\<open>int\<close> converts the
  runs: the message \<^verbatim>\<open>ATM CE OI:\<close>, 4301 digits, \<^verbatim>\<open> PE OI:2\<close> has the marker and the two
  occurrences, and the extractor raises \<^verbatim>\<open>ValueError\<close> in place of returning the pair.
  (For runs of at most 4300 digits the three cases of C6 are the lemma
  \<open>extract_oi_data_eq\<close>.)
\<close>

theorem oi_extractor_long_run:
  "contains ''ATM CE OI:'' (''ATM CE OI:'' @ long_run @ '' PE OI:2'') \<and>
   oi_occurrences (''ATM CE OI:'' @ long_run @ '' PE OI:2'') = [long_run, ''2''] \<and>
   length long_run = 4301 \<and>
   extract_oi_data (''ATM CE OI:'' @ long_run @ '' PE OI:2'') = Inl ValueError"
  using long_message long_run_facts(1) by blast

subsection \<open>C7: two rows for one line\<close>

text \<open>
  C7 says that a parsed line whose message has the marker \<^verbatim>\<open>ATM CE OI:\<close> with at least
  two occurrences and the marker \<^verbatim>\<open>ATM strikes:\<close> with an instrument code makes the
  series builder append two rows. On the line below the message has both markers, two
  occurrences and a code on which the strike extractor succeeds, and the series builder
  appends nothing: the first digit run has 4301 digits and \<^verbatim>\<open>int\<close> raises
  \<^verbatim>\<open>ValueError\<close>. (For lines with runs of at most 4300 digits the rows and their order
  are the lemma \<open>process_lines_eq\<close>.)
\<close>

theorem both_extractors_long_run:
  "parse_log_line (''2024-01-15 09:30:00,123: ATM strikes: BANKNIFTY24N0745000CE ATM CE OI:'' @
       long_run @ '' PE OI:2'') =
     (Some \<lparr>year = 2024, month = 1, day = 15, hour = 9, minute = 30, second = 0,
            microsecond = 123000\<rparr>,
      Some (''ATM strikes: BANKNIFTY24N0745000CE ATM CE OI:'' @ long_run @ '' PE OI:2'')) \<and>
   contains ''ATM CE OI:''
     (''ATM strikes: BANKNIFTY24N0745000CE ATM CE OI:'' @ long_run @ '' PE OI:2'') \<and>
   oi_occurrences (''ATM strikes: BANKNIFTY24N0745000CE ATM CE OI:'' @ long_run @ '' PE OI:2'') =
     [long_run, ''2''] \<and>
   contains ''ATM strikes:''
     (''ATM strikes: BANKNIFTY24N0745000CE ATM CE OI:'' @ long_run @ '' PE OI:2'') \<and>
   extract_strike_data
     (''ATM strikes: BANKNIFTY24N0745000CE ATM CE OI:'' @ long_run @ '' PE OI:2'') = Some ''0'' \<and>
   process_lines
     [''2024-01-15 09:30:00,123: ATM strikes: BANKNIFTY24N0745000CE ATM CE OI:'' @
       long_run @ '' PE OI:2''] [] = Inl ValueError"
  using both_line both_message process_lines_raise[OF both_line both_message(5), of "[]" "[]"]
  by blast

subsection \<open>C8: the difference\<close>

text \<open>
  C8: in every OIRecord that the pipeline produces, oi_difference is ce_oi minus pe_oi
  as an integer, negative when pe_oi is the larger.
\<close>

theorem oi_difference_signed:
  "process_log_data text = Inr rows \<Longrightarrow> OIRecord t ce pe d \<in> set rows \<Longrightarrow> d = ce - pe"
  using rows_difference[of "py_split [CHR 0x0A] text" "[]" rows t ce pe d]
  by (simp add: process_log_data_def)

text \<open>The theorem at a line with ce_oi 100 and pe_oi 250: the difference is -150.\<close>

theorem oi_difference_signed_witness:
  "process_log_data ''2024-01-15 09:30:00,456: ATM CE OI:100 PE OI:250'' =
     Inr [OIRecord \<lparr>year = 2024, month = 1, day = 15, hour = 9, minute = 30, second = 0,
                    microsecond = 456000\<rparr> 100 250 (- 150)] \<and>
   OIRecord \<lparr>year = 2024, month = 1, day = 15, hour = 9, minute = 30, second = 0,
              microsecond = 456000\<rparr> 100 250 (- 150) \<in>
     set [OIRecord \<lparr>year = 2024, month = 1, day = 15, hour = 9, minute = 30, second = 0,
                    microsecond = 456000\<rparr> 100 250 (- 150)] \<and>
   (- 150 :: int) = 100 - 250"
  using oi_difference_signed[OF rows_example_neg, of _ 100 250 "- 150"] rows_example_neg
  by simp

subsection \<open>C9: determinism\<close>

text \<open>
  C9 speaks of two runs of the series builder and of state hidden between them. In this
  embedding \<open>process_log_data\<close> is a function of the text alone, so two applications to
  the same text are equal before anything is proved, and there is no state between
  invocations in which a dependence could be written down. No theorem is stated for C9.
\<close>

subsection \<open>C10: the strike is one digit\<close>

text \<open>
  C10: whenever the strike extractor succeeds, the string it returns has length one:
  it is the digit in front of \<^verbatim>\<open>CE\<close> or \<^verbatim>\<open>PE\<close> in an instrument code of the message;
  the digits before it belong to the repetition in front of the group.
\<close>

theorem strike_single_digit:
  "extract_strike_data msg = Some s \<Longrightarrow>
     length s = 1 \<and>
     (\<exists>pre d1 c d2 suf post.
        msg = pre @ ''BANKNIFTY'' @ d1 @ [c] @ d2 @ s @ suf @ post \<and> code_parts d1 c d2 s suf)"
proof -
  assume a: "extract_strike_data msg = Some s"
  then obtain gs rest where fm: "first_match strike_re msg = Some (gs, rest)" and s: "s = gs ! 0"
    by (auto simp: extract_strike_data_eq split: if_splits)
  from fm obtain pre t where m: "msg = pre @ t" "re_match strike_re t = Some (gs, rest)"
    using first_match_SomeD by blast
  from m(2) obtain d1 c d2 g suf where
    t: "t = ''BANKNIFTY'' @ d1 @ [c] @ d2 @ [g] @ suf @ rest"
    and cp: "code_parts d1 c d2 [g] suf" and gs: "gs = [[g], suf]"
    using strike_match_elim by blast
  have sg: "s = [g]" using s gs by simp
  have "msg = pre @ ''BANKNIFTY'' @ d1 @ [c] @ d2 @ s @ suf @ rest \<and> code_parts d1 c d2 s suf"
    unfolding sg using m(1) t cp by simp
  then have "\<exists>pre d1 c d2 suf post.
        msg = pre @ ''BANKNIFTY'' @ d1 @ [c] @ d2 @ s @ suf @ post \<and> code_parts d1 c d2 s suf"
    by blast
  then show ?thesis using sg by simp
qed

text \<open>The theorem at a message with one instrument code.\<close>

theorem strike_single_digit_witness:
  "extract_strike_data ''ATM strikes: BANKNIFTY24N0745000CE'' = Some ''0'' \<and>
   length ''0'' = 1 \<and>
   (\<exists>pre d1 c d2 suf post.
      ''ATM strikes: BANKNIFTY24N0745000CE'' =
        pre @ ''BANKNIFTY'' @ d1 @ [c] @ d2 @ ''0'' @ suf @ post \<and>
      code_parts d1 c d2 ''0'' suf)"
  using strike_single_digit[OF strike_eval_single] strike_eval_single
  by blast

end
